theory Spec2Isabelle
  imports Complex_Main "HOL-Library.Word"
begin

section \<open>Data model of \<open>pslq.hpp\<close>\<close>

text \<open>
  The template parameter \<open>Real\<close> of \<open>pslq\<close> is modelled by the exact reals: every
  arithmetic operation, comparison and square root is the mathematical one.  The two
  facts of \<open>Real\<close> that the source takes from libraries,
  \<open>std::numeric_limits<Real>::epsilon()\<close> and \<open>boost::math::float_distance\<close>, are
  parameters of the model.  The ledger matrices \<open>A\<close> and \<open>B\<close> hold \<open>int64_t\<close>
  entries; they are 64-bit words whose arithmetic wraps around.  An Eigen matrix or
  vector is the function from its indices to its entries; every access of the source
  stays inside the allocated bounds, except the one read that \<open>Index_out_of_range\<close>
  below stands for.
\<close>

type_synonym int64 = "64 word"
type_synonym 'a matrix = "nat \<Rightarrow> nat \<Rightarrow> 'a"
type_synonym 'a vector = "nat \<Rightarrow> 'a"

record real_traits =
  epsilon :: real
  float_distance :: "real \<Rightarrow> real \<Rightarrow> real"

text \<open>Assignment \<open>M(i,j) = v\<close> to one entry of a matrix.\<close>

definition assign :: "'a matrix \<Rightarrow> nat \<Rightarrow> nat \<Rightarrow> 'a \<Rightarrow> 'a matrix" where
  "assign M i j v = M(i := (M i)(j := v))"

text \<open>\<open>Matrix::Identity(n, n)\<close>.\<close>

definition Identity :: "int64 matrix" where
  "Identity = (\<lambda>i j. if i = j then 1 else 0)"

subsection \<open>The integer ledger\<close>

text \<open>
  One pass of the loop \<open>for (k = 0; k < n; ++k)\<close> that updates row \<open>i\<close> of \<open>A\<close>
  and column \<open>j\<close> of \<open>B\<close> with the same integer \<open>tint\<close>.
\<close>

definition ledger_step ::
  "nat \<Rightarrow> nat \<Rightarrow> int64 \<Rightarrow> nat \<Rightarrow> int64 matrix \<times> int64 matrix \<Rightarrow> int64 matrix \<times> int64 matrix" where
  "ledger_step i j tint k AB =
     (case AB of (A, B) \<Rightarrow>
        (let A' = assign A i k (A i k - tint * A j k);
             B' = assign B k j (B k j + tint * B k i)
         in (A', B')))"

definition ledger_reduce ::
  "nat \<Rightarrow> nat \<Rightarrow> nat \<Rightarrow> int64 \<Rightarrow> int64 matrix \<times> int64 matrix \<Rightarrow> int64 matrix \<times> int64 matrix" where
  "ledger_reduce n i j tint AB = fold (ledger_step i j tint) [0..<n] AB"

text \<open>\<open>M.row(a).swap(M.row(b))\<close> and \<open>M.col(a).swap(M.col(b))\<close>.\<close>

definition swap_rows :: "'a matrix \<Rightarrow> nat \<Rightarrow> nat \<Rightarrow> 'a matrix" where
  "swap_rows M a b = M(a := M b, b := M a)"

definition swap_cols :: "'a matrix \<Rightarrow> nat \<Rightarrow> nat \<Rightarrow> 'a matrix" where
  "swap_cols M a b = (\<lambda>i. (M i)(a := M i b, b := M i a))"

text \<open>Entry \<open>(i, j)\<close> of the product \<open>A * B\<close> of two \<open>n \<times> n\<close> ledger matrices.\<close>

definition product_entry :: "nat \<Rightarrow> int64 matrix \<Rightarrow> int64 matrix \<Rightarrow> nat \<Rightarrow> nat \<Rightarrow> int64" where
  "product_entry n A B i j = (\<Sum>k = 0..<n. A i k * B k j)"

definition inverse_pair :: "nat \<Rightarrow> int64 matrix \<Rightarrow> int64 matrix \<Rightarrow> bool" where
  "inverse_pair n A B \<longleftrightarrow>
     (\<forall>i < n. \<forall>j < n. product_entry n A B i j = Identity i j)"

subsection \<open>Numbers\<close>

text \<open>
  \<open>std::round\<close> rounds to the nearest integer, halfway cases away from zero.
  \<open>static_cast<int64_t>\<close> truncates towards zero; a value outside the range of
  \<open>int64_t\<close> is undefined behaviour in the source and wraps around here.
\<close>

definition cpp_round :: "real \<Rightarrow> real" where
  "cpp_round t = (if 0 \<le> t then of_int \<lfloor>t + 1 / 2\<rfloor> else - of_int \<lfloor>- t + 1 / 2\<rfloor>)"

definition to_int64 :: "real \<Rightarrow> int64" where
  "to_int64 t = word_of_int (if 0 \<le> t then \<lfloor>t\<rfloor> else \<lceil>t\<rceil>)"

definition of_int64 :: "int64 \<Rightarrow> real" where
  "of_int64 w = of_int (sint w)"

subsection \<open>Diagnostics, state and result\<close>

text \<open>
  Everything the source writes to \<open>std::cout\<close> and \<open>std::cerr\<close> is recorded, in
  order, as a list of events; one event stands for one diagnostic (which may span
  several output statements).  The payloads are the values the diagnostic prints that
  matter to a caller; the closeness diagnostic, which also prints the whole of \<open>y\<close>,
  keeps the index and the two entries it names.
\<close>

datatype message =
    Not_sorted
  | Gamma_too_small
  | Tau_out_of_range
  | Too_few_values
  | Zero_in_dictionary
  | Negative_in_dictionary
  | Norm_bound_too_large real real
  | Expected_iterations int64
  | H_norm_failed
  | Y_too_small nat real
  | Y_too_close nat real real
  | YH_nonzero
  | Pivot_is_last
  | Pivot_is_missing
  | Large_residual real real
  | Norm_bound_progress real real int64 int64
  | Norm_bound_decreased
  | Endl

datatype event = Cout message | Cerr message

record pslq_state =
  st_x :: "real list"
  st_H :: "real matrix"
  st_y :: "real vector"
  st_A :: "int64 matrix"
  st_B :: "int64 matrix"
  st_norm_bound :: real
  st_last_norm_bound :: real
  st_iteration :: int64
  st_out :: "event list"

text \<open>
  What a call leaves behind: the returned vector \<open>relation\<close>, the text written, and
  the contents of the argument \<open>x\<close>, which the source takes by non-const reference.
\<close>

record pslq_result =
  relation :: "(int64 \<times> real) list"
  written :: "event list"
  x_after :: "real list"

text \<open>
  How a call ends.  The diagnostic of the closeness check reads \<open>y[i+1]\<close>; for
  \<open>i = n - 1\<close> that index is outside the vector, where Eigen's index assertion
  fails (and without assertions the read is undefined): \<open>Index_out_of_range\<close>.
\<close>

datatype outcome = Returned pslq_result | Index_out_of_range

datatype round_outcome = Return pslq_result | Continue pslq_state

subsection \<open>Validation of the arguments\<close>

text \<open>\<open>std::is_sorted\<close>: no element is less than its predecessor.\<close>

fun is_sorted :: "real list \<Rightarrow> bool" where
  "is_sorted (a # b # xs) = (\<not> b < a \<and> is_sorted (b # xs))"
| "is_sorted xs = True"

definition tau :: "real \<Rightarrow> real" where
  "tau gamma = (let tmp = 1 / 4 + 1 / (gamma * gamma) in 1 / sqrt tmp)"

text \<open>The loop \<open>for (auto & t : x)\<close>: the first zero or negative entry decides.\<close>

fun check_entries :: "real list \<Rightarrow> message option" where
  "check_entries [] = None"
| "check_entries (t # ts) =
     (if t = 0 then Some Zero_in_dictionary
      else if t < 0 then Some Negative_in_dictionary
      else check_entries ts)"

subsection \<open>Construction of \<open>s_sq\<close>, \<open>H\<close> and \<open>y\<close>\<close>

definition s_sq :: "real list \<Rightarrow> real list" where
  "s_sq x =
     (let n = length x;
          s = (replicate n 0)[n - 1 := last x * last x]
      in fold (\<lambda>i s. s[i := s ! (i + 1) + x ! i * x ! i]) (rev [0..<n - 1]) s)"

definition build_H :: "real list \<Rightarrow> real list \<Rightarrow> real matrix" where
  "build_H x s =
     (let n = length x;
          H = fold (\<lambda>i. fold (\<lambda>j H.
                  if i < j then assign H i j 0
                  else if i = j then assign H i i (sqrt (s ! (i + 1) / s ! i))
                  else assign H i j (- x ! i * x ! j / sqrt (s ! j * s ! (j + 1))))
                [0..<n - 1]) [0..<n - 1] (\<lambda>i j. 0)
      in fold (\<lambda>j H. assign H (n - 1) j (- x ! (n - 1) * x ! j / sqrt (s ! j * s ! (j + 1))))
           [0..<n - 1] H)"

definition build_y :: "real list \<Rightarrow> real list \<Rightarrow> real vector" where
  "build_y x s = fold (\<lambda>i y. y(i := x ! i / sqrt (s ! 0))) [0..<length x] (\<lambda>i. 0)"

definition expected_iterations :: "nat \<Rightarrow> real \<Rightarrow> real \<Rightarrow> int64" where
  "expected_iterations n max_acceptable_norm_bound gamma =
     to_int64 (of_int \<lceil>real (n choose 2) * ln (gamma ^ (n - 1) * max_acceptable_norm_bound)
                       / ln (tau gamma)\<rceil>)"

text \<open>\<open>H.squaredNorm()\<close> and the entries of \<open>y.transpose() * H\<close>.\<close>

definition squaredNorm :: "nat \<Rightarrow> real matrix \<Rightarrow> real" where
  "squaredNorm n H = (\<Sum>i = 0..<n. \<Sum>j = 0..<n - 1. H i j * H i j)"

definition yH :: "nat \<Rightarrow> real vector \<Rightarrow> real matrix \<Rightarrow> nat \<Rightarrow> real" where
  "yH n y H j = (\<Sum>i = 0..<n. y i * H i j)"

subsection \<open>Size reduction\<close>

text \<open>
  The body of the two reduction loops for one pair \<open>(i, j)\<close>.  The source has it
  twice (initial reduction and step 4 of a round) with the three updates in a
  different order; they write disjoint data.
\<close>

definition reduce_entry :: "nat \<Rightarrow> nat \<Rightarrow> nat \<Rightarrow> pslq_state \<Rightarrow> pslq_state" where
  "reduce_entry n i j st =
     (let t = cpp_round (st_H st i j / st_H st j j);
          tint = to_int64 t
      in if tint = 0 then st
         else
           let H' = fold (\<lambda>k H. assign H i k (H i k - t * H j k)) [0..<j + 1] (st_H st);
               AB = ledger_reduce n i j tint (st_A st, st_B st);
               y' = (st_y st)(j := st_y st j + t * st_y st i)
           in st\<lparr>st_H := H', st_y := y', st_A := fst AB, st_B := snd AB\<rparr>)"

definition initial_reduction :: "nat \<Rightarrow> pslq_state \<Rightarrow> pslq_state" where
  "initial_reduction n st = fold (\<lambda>i. fold (reduce_entry n i) (rev [0..<i])) [1..<n] st"

definition max_coeff :: "nat \<Rightarrow> real matrix \<Rightarrow> real" where
  "max_coeff n H = fold (\<lambda>i mc. if \<bar>H i i\<bar> > mc then \<bar>H i i\<bar> else mc) [0..<n - 1] 0"

subsection \<open>Everything before the main loop\<close>

definition empty_result :: "real list \<Rightarrow> event list \<Rightarrow> pslq_result" where
  "empty_result x out = \<lparr>relation = [], written = out, x_after = x\<rparr>"

text \<open>
  \<open>pslq_initial\<close> is the source from its first line to the initialisation of \<open>A\<close>
  and \<open>B\<close>: every guard, the construction of \<open>H\<close> and \<open>y\<close> and their self-checks.
  \<open>Inl\<close> is the end of the call before the iteration.
\<close>

definition pslq_initial ::
  "real_traits \<Rightarrow> real list \<Rightarrow> real \<Rightarrow> real \<Rightarrow> outcome + pslq_state" where
  "pslq_initial T x max_acceptable_norm_bound gamma =
     (if \<not> is_sorted x then Inl (Returned (empty_result x [Cerr Not_sorted]))
      else if gamma \<le> 2 / sqrt 3 then Inl (Returned (empty_result x [Cerr Gamma_too_small]))
      else if tau gamma \<le> 1 \<or> tau gamma \<ge> 2
        then Inl (Returned (empty_result x [Cerr Tau_out_of_range]))
      else if length x < 2 then Inl (Returned (empty_result x [Cerr Too_few_values]))
      else case check_entries x of
        Some msg \<Rightarrow> Inl (Returned (empty_result x [Cerr msg]))
      | None \<Rightarrow>
        let s = s_sq x; n = length x in
        if max_acceptable_norm_bound * max_acceptable_norm_bound * s ! 0 > 1 / epsilon T
        then Inl (Returned (empty_result x
                   [Cerr (Norm_bound_too_large max_acceptable_norm_bound
                            (1 / sqrt (s ! 0 * epsilon T)))]))
        else
          let H = build_H x s;
              out = [Cout (Expected_iterations (expected_iterations n max_acceptable_norm_bound gamma))]
          in
          if \<bar>squaredNorm n H / real (n - 1) - 1\<bar> > sqrt (epsilon T)
          then Inl (Returned (empty_result x (out @ [Cerr H_norm_failed])))
          else
            let y = build_y x s in
            case find (\<lambda>i. \<bar>y i\<bar> < epsilon T) [0..<n] of
              Some i \<Rightarrow> Inl (Returned (empty_result x (out @ [Cerr (Y_too_small i (y i))])))
            | None \<Rightarrow>
              case find (\<lambda>i. \<bar>float_distance T (y i) (y (i - 1))\<bar> \<le> 2) [1..<n] of
                Some i \<Rightarrow>
                  if i + 1 < n
                  then Inl (Returned (empty_result x
                             (out @ [Cerr (Y_too_close i (y i) (y (i + 1)))])))
                  else Inl Index_out_of_range
              | None \<Rightarrow>
                if \<exists>i \<in> set [0..<n - 1]. \<bar>yH n y H i\<bar> / real (n - 1) > sqrt (epsilon T)
                then Inl (Returned (empty_result x (out @ [Cerr YH_nonzero])))
                else Inr \<lparr>st_x = x, st_H = H, st_y = y, st_A = Identity, st_B = Identity,
                          st_norm_bound = 0, st_last_norm_bound = 0, st_iteration = 0,
                          st_out = out\<rparr>)"

text \<open>The initial reduction and the first norm bound complete the state for the loop.\<close>

definition pslq_start ::
  "real_traits \<Rightarrow> real list \<Rightarrow> real \<Rightarrow> real \<Rightarrow> outcome + pslq_state" where
  "pslq_start T x max_acceptable_norm_bound gamma =
     (case pslq_initial T x max_acceptable_norm_bound gamma of
        Inl r \<Rightarrow> Inl r
      | Inr st0 \<Rightarrow>
          let st = initial_reduction (length x) st0;
              norm_bound = 1 / max_coeff (length x) (st_H st)
          in Inr (st\<lparr>st_norm_bound := norm_bound, st_last_norm_bound := norm_bound\<rparr>))"

subsection \<open>One round of the main loop\<close>

text \<open>
  Step 1: the running power \<open>gammai\<close>, the running maximum \<open>max_term\<close> and the index
  \<open>m\<close>, which starts at \<open>-1\<close>.
\<close>

definition select_pivot :: "real \<Rightarrow> nat \<Rightarrow> real matrix \<Rightarrow> int" where
  "select_pivot gamma n H =
     snd (snd (fold (\<lambda>i (gammai, max_term, m).
                  let term = gammai * \<bar>H i i\<bar> in
                  if term > max_term then (gammai * gamma, term, int i)
                  else (gammai * gamma, max_term, m))
               [0..<n - 1] (gamma, 0, - 1)))"

text \<open>Step 2: the exchange of entries, rows and columns \<open>m\<close> and \<open>m + 1\<close>.\<close>

definition exchange :: "nat \<Rightarrow> pslq_state \<Rightarrow> pslq_state" where
  "exchange m st =
     st\<lparr>st_y := (st_y st)(m := st_y st (m + 1), m + 1 := st_y st m),
        st_A := swap_rows (st_A st) m (m + 1),
        st_H := swap_rows (st_H st) m (m + 1),
        st_B := swap_cols (st_B st) m (m + 1)\<rparr>"

text \<open>Step 3: the rotation of columns \<open>m\<close> and \<open>m + 1\<close>, guarded by \<open>m < n - 2\<close>.\<close>

definition remove_corner :: "nat \<Rightarrow> nat \<Rightarrow> real matrix \<Rightarrow> real matrix" where
  "remove_corner n m H =
     (if int m < int n - 2 then
        let t0 = sqrt (H m m * H m m + H m (m + 1) * H m (m + 1));
            t1 = H m m / t0;
            t2 = H m (m + 1) / t0
        in fold (\<lambda>i H.
                  let t3 = H i m; t4 = H i (m + 1);
                      H' = assign H i m (t1 * t3 + t2 * t4)
                  in assign H' i (m + 1) (- t2 * t3 + t1 * t4))
             [m..<n] H
      else H)"

text \<open>Step 4: the partial reduction of rows \<open>m + 1\<close> to \<open>n - 1\<close>.\<close>

definition reduce_rows :: "nat \<Rightarrow> nat \<Rightarrow> pslq_state \<Rightarrow> pslq_state" where
  "reduce_rows n m st =
     fold (\<lambda>i. fold (reduce_entry n i) (rev [0..<min (i - 1) (m + 1) + 1])) [m + 1..<n] st"

definition round_update :: "nat \<Rightarrow> nat \<Rightarrow> pslq_state \<Rightarrow> pslq_state" where
  "round_update n m st =
     (let st1 = exchange m st;
          st2 = st1\<lparr>st_H := remove_corner n m (st_H st1)\<rparr>
      in reduce_rows n m st2)"

text \<open>The search for a solution: the first \<open>i\<close> whose \<open>y[i]\<close> is below the threshold.\<close>

definition threshold :: "real_traits \<Rightarrow> real" where
  "threshold T = epsilon T powr (15 / 16)"

definition solution_index :: "real_traits \<Rightarrow> nat \<Rightarrow> real vector \<Rightarrow> nat option" where
  "solution_index T n y = find (\<lambda>i. \<bar>y i\<bar> < threshold T) [0..<n]"

definition residuals :: "real list \<Rightarrow> int64 matrix \<Rightarrow> nat \<Rightarrow> real \<times> real" where
  "residuals x B i =
     fold (\<lambda>j (residual, absum).
             (residual + of_int64 (B j i) * x ! j, absum + \<bar>of_int64 (B j i) * x ! j\<bar>))
          [0..<length x] (0, 0)"

definition extract_relation :: "real_traits \<Rightarrow> pslq_state \<Rightarrow> nat \<Rightarrow> pslq_result" where
  "extract_relation T st i =
     (let x = st_x st; B = st_B st;
          (residual, absum) = residuals x B i;
          tolerable_residual = 16 * epsilon T * absum;
          warn = (if \<bar>residual\<bar> > tolerable_residual
                  then [Cerr (Large_residual \<bar>residual\<bar> tolerable_residual)] else []);
          rel = fold (\<lambda>j rel. if B j i \<noteq> 0 then rel @ [(B j i, x ! j)] else rel)
                  [0..<length x] []
      in \<lparr>relation = rel, written = st_out st @ warn @ [Cout Endl], x_after = x\<rparr>)"

definition update_norm_bound :: "real \<Rightarrow> real \<Rightarrow> pslq_state \<Rightarrow> pslq_state" where
  "update_norm_bound max_acceptable_norm_bound gamma st =
     (let n = length (st_x st);
          norm_bound = 1 / max_coeff n (st_H st);
          progress = [Cout (Norm_bound_progress norm_bound max_acceptable_norm_bound
                        (st_iteration st) (expected_iterations n max_acceptable_norm_bound gamma))];
          warn = (if norm_bound < st_last_norm_bound st then [Cerr Norm_bound_decreased] else [])
      in st\<lparr>st_norm_bound := norm_bound, st_last_norm_bound := norm_bound,
            st_iteration := st_iteration st + 1, st_out := st_out st @ progress @ warn\<rparr>)"

definition pslq_round :: "real_traits \<Rightarrow> real \<Rightarrow> real \<Rightarrow> pslq_state \<Rightarrow> round_outcome" where
  "pslq_round T max_acceptable_norm_bound gamma st =
     (let n = length (st_x st);
          m = select_pivot gamma n (st_H st)
      in if m = int n - 1 then Return (empty_result (st_x st) (st_out st @ [Cerr Pivot_is_last]))
         else if m < 0 then Return (empty_result (st_x st) (st_out st @ [Cerr Pivot_is_missing]))
         else
           let st' = round_update n (nat m) st in
           case solution_index T n (st_y st') of
             Some i \<Rightarrow> Return (extract_relation T st' i)
           | None \<Rightarrow> Continue (update_norm_bound max_acceptable_norm_bound gamma st'))"

subsection \<open>The main loop and the entry point\<close>

text \<open>
  The \<open>while\<close> loop has no bound on its rounds, so \<open>None\<close> stands for a call that
  does not return.
\<close>

partial_function (option) pslq_loop ::
  "real_traits \<Rightarrow> real \<Rightarrow> real \<Rightarrow> pslq_state \<Rightarrow> outcome option" where
  "pslq_loop T max_acceptable_norm_bound gamma st =
     (if st_norm_bound st < max_acceptable_norm_bound then
        (case pslq_round T max_acceptable_norm_bound gamma st of
           Return r \<Rightarrow> Some (Returned r)
         | Continue st' \<Rightarrow> pslq_loop T max_acceptable_norm_bound gamma st')
      else Some (Returned (empty_result (st_x st) (st_out st @ [Cout Endl]))))"

definition pslq :: "real_traits \<Rightarrow> real list \<Rightarrow> real \<Rightarrow> real \<Rightarrow> outcome option" where
  "pslq T x max_acceptable_norm_bound gamma =
     (case pslq_start T x max_acceptable_norm_bound gamma of
        Inl r \<Rightarrow> Some r
      | Inr st \<Rightarrow> pslq_loop T max_acceptable_norm_bound gamma st)"


text \<open>
  The states at the head of the \<open>while\<close> loop of a call: the one the initialisation
  leaves, and the one each completed round leaves.
\<close>

inductive loop_head ::
  "real_traits \<Rightarrow> real list \<Rightarrow> real \<Rightarrow> real \<Rightarrow> pslq_state \<Rightarrow> bool"
  for T x max_acceptable_norm_bound gamma where
  initialised:
    "pslq_start T x max_acceptable_norm_bound gamma = Inr st \<Longrightarrow>
     loop_head T x max_acceptable_norm_bound gamma st"
| next_round:
    "loop_head T x max_acceptable_norm_bound gamma st \<Longrightarrow>
     st_norm_bound st < max_acceptable_norm_bound \<Longrightarrow>
     pslq_round T max_acceptable_norm_bound gamma st = Continue st' \<Longrightarrow>
     loop_head T x max_acceptable_norm_bound gamma st'"

subsection \<open>The suffix sums as the specification writes them\<close>

text \<open>\<open>s\<^sup>2\<^sub>i\<close> is the sum of \<open>x\<^sub>k\<^sup>2\<close> over \<open>k \<ge> i\<close>.\<close>

definition suffix_sum :: "real list \<Rightarrow> nat \<Rightarrow> real" where
  "suffix_sum x i = (\<Sum>k = i..<length x. x ! k * x ! k)"

subsection \<open>Properties of the real side, as the specification names them\<close>

text \<open>
  \<open>H\<close> is lower trapezoidal when every entry above the diagonal is zero.  A state is
  \<open>regular\<close> when \<open>H\<close> is lower trapezoidal, \<open>y \<sqdot> H = 0\<close>, and no diagonal entry of \<open>H\<close>
  is zero.
\<close>

definition lower_trapezoidal :: "nat \<Rightarrow> real matrix \<Rightarrow> bool" where
  "lower_trapezoidal n H \<longleftrightarrow> (\<forall>i j. i < j \<and> j < n - 1 \<longrightarrow> H i j = 0)"

definition regular :: "nat \<Rightarrow> real vector \<Rightarrow> real matrix \<Rightarrow> bool" where
  "regular n y H \<longleftrightarrow>
     lower_trapezoidal n H \<and> (\<forall>j < n - 1. yH n y H j = 0) \<and> (\<forall>j < n - 1. H j j \<noteq> 0)"

subsection \<open>A worked input\<close>

text \<open>
  An instance of the traits for evaluation: 52 fractional bits, distances measured in
  units of epsilon.  \<open>example_state\<close> is the state in which the call with
  \<open>x = (3, 4)\<close> and \<open>gamma = 2\<close> enters the loop.
\<close>

definition example_traits :: real_traits where
  "example_traits = \<lparr>epsilon = 1 / 2 ^ 52, float_distance = (\<lambda>a b. (b - a) * 2 ^ 52)\<rparr>"

definition example_state :: "event list \<Rightarrow> pslq_state" where
  "example_state out =
     \<lparr>st_x = [3, 4],
      st_H = assign (assign (\<lambda>i j. 0) 0 0 (4 / 5)) 1 0 (1 / 5),
      st_y = (\<lambda>i. 0)(0 := - 1 / 5, 1 := 4 / 5),
      st_A = assign Identity 1 0 1,
      st_B = assign Identity 1 0 (- 1),
      st_norm_bound = 5 / 4, st_last_norm_bound = 5 / 4, st_iteration = 0,
      st_out = out\<rparr>"

text \<open>
  A second worked input, \<open>x = (91, 120, 288)\<close> with \<open>gamma = 2\<close>: the state in which
  the call enters the loop, and the state after its first round.
\<close>

definition example_state3 :: "event list \<Rightarrow> pslq_state" where
  "example_state3 out =
     \<lparr>st_x = [91, 120, 288],
      st_H = assign (assign (assign (assign (assign (\<lambda>i j. 0)
               0 0 (24 / 25)) 1 0 (- 7 / 65)) 1 1 (12 / 13)) 2 0 (- 84 / 325)) 2 1 (- 5 / 13),
      st_y = (\<lambda>i. 0)(0 := 7 / 25, 1 := 24 / 65, 2 := 288 / 325),
      st_A = Identity,
      st_B = Identity,
      st_norm_bound = 25 / 24, st_last_norm_bound = 25 / 24, st_iteration = 0,
      st_out = out\<rparr>"

definition example_state3_next :: "event list \<Rightarrow> pslq_state" where
  "example_state3_next out =
     \<lparr>st_x = [91, 120, 288],
      st_H = assign (assign (assign (assign (assign (\<lambda>i j. 0)
               0 0 (24 / 25)) 1 0 (- 84 / 325)) 1 1 (- 5 / 13)) 2 0 (109 / 325)) 2 1 (2 / 13),
      st_y = (\<lambda>i. 0)(0 := - 29 / 325, 1 := 48 / 325, 2 := 24 / 65),
      st_A = assign (assign (assign (assign (assign Identity 1 1 0) 1 2 1) 2 0 1) 2 1 1) 2 2 2,
      st_B = assign (assign (assign (assign (assign Identity 1 0 (- 1)) 1 1 (- 2)) 1 2 1) 2 1 1) 2 2 0,
      st_norm_bound = 25 / 24, st_last_norm_bound = 25 / 24, st_iteration = 1,
      st_out = out\<rparr>"


section \<open>The ledger keeps \<open>A * B = I\<close>\<close>

lemma ledger_reduce_A:
  assumes "i \<noteq> j"
  shows "fst (ledger_reduce n i j t (A, B)) p q =
         (if p = i \<and> q < n then A i q - t * A j q else A p q)"
proof (induction n arbitrary: p q)
  case 0
  show ?case by (simp add: ledger_reduce_def)
next
  case (Suc n)
  obtain A' B' where AB': "ledger_reduce n i j t (A, B) = (A', B')"
    by (cases "ledger_reduce n i j t (A, B)")
  have A': "A' p q = (if p = i \<and> q < n then A i q - t * A j q else A p q)" for p q
    using Suc.IH [of p q] by (simp add: AB')
  have "ledger_reduce (Suc n) i j t (A, B) = ledger_step i j t n (A', B')"
    using AB' by (simp add: ledger_reduce_def)
  then show ?case
    using assms by (auto simp: ledger_step_def assign_def Let_def A')
qed

lemma ledger_reduce_B:
  assumes "i \<noteq> j"
  shows "snd (ledger_reduce n i j t (A, B)) p q =
         (if q = j \<and> p < n then B p j + t * B p i else B p q)"
proof (induction n arbitrary: p q)
  case 0
  show ?case by (simp add: ledger_reduce_def)
next
  case (Suc n)
  obtain A' B' where AB': "ledger_reduce n i j t (A, B) = (A', B')"
    by (cases "ledger_reduce n i j t (A, B)")
  have B': "B' p q = (if q = j \<and> p < n then B p j + t * B p i else B p q)" for p q
    using Suc.IH [of p q] by (simp add: AB')
  have "ledger_reduce (Suc n) i j t (A, B) = ledger_step i j t n (A', B')"
    using AB' by (simp add: ledger_reduce_def)
  then show ?case
    using assms by (auto simp: ledger_step_def assign_def Let_def B')
qed

lemma inverse_pair_Identity: "inverse_pair n Identity Identity"
proof -
  have "(\<Sum>k = 0..<n. Identity i k * Identity k j) = Identity i j" if "i < n" for i j
  proof -
    have "(\<Sum>k = 0..<n. Identity i k * Identity k j)
          = (\<Sum>k = 0..<n. if k = i then Identity i j else 0)"
      by (intro sum.cong) (auto simp: Identity_def)
    also have "\<dots> = Identity i j"
      using that by simp
    finally show ?thesis .
  qed
  then show ?thesis
    by (simp add: inverse_pair_def product_entry_def)
qed

lemma inverse_pair_ledger_reduce:
  assumes inv: "inverse_pair n A B" and ij: "i \<noteq> j" "i < n" "j < n"
  shows "inverse_pair n (fst (ledger_reduce n i j t (A, B))) (snd (ledger_reduce n i j t (A, B)))"
proof -
  define A' where "A' = fst (ledger_reduce n i j t (A, B))"
  define B' where "B' = snd (ledger_reduce n i j t (A, B))"
  have P: "(\<Sum>k = 0..<n. A p k * B k q) = Identity p q" if "p < n" "q < n" for p q
    using inv that by (simp add: inverse_pair_def product_entry_def)
  have A': "A' p k = (if p = i then A i k - t * A j k else A p k)" if "k < n" for p k
    using that ij(1) by (simp add: A'_def ledger_reduce_A)
  have B': "B' k q = (if q = j then B k j + t * B k i else B k q)" if "k < n" for k q
    using that ij(1) by (simp add: B'_def ledger_reduce_B)
  have "(\<Sum>k = 0..<n. A' p k * B' k q) = Identity p q" if pq: "p < n" "q < n" for p q
  proof -
    have "(\<Sum>k = 0..<n. A' p k * B' k q)
          = (\<Sum>k = 0..<n. (if p = i then A i k - t * A j k else A p k)
                          * (if q = j then B k j + t * B k i else B k q))"
      by (intro sum.cong) (simp_all add: A' B')
    also have "\<dots> = Identity p q"
    proof (cases "p = i"; cases "q = j")
      assume "p = i" "q = j"
      have "(\<Sum>k = 0..<n. (A i k - t * A j k) * (B k j + t * B k i))
            = (\<Sum>k = 0..<n. A i k * B k j) + t * (\<Sum>k = 0..<n. A i k * B k i)
              - t * (\<Sum>k = 0..<n. A j k * B k j) - t * t * (\<Sum>k = 0..<n. A j k * B k i)"
        by (simp add: algebra_simps sum.distrib sum_subtractf sum_distrib_left)
      also have "\<dots> = Identity i j"
        using ij by (simp add: P) (simp add: Identity_def)
      finally show ?thesis using \<open>p = i\<close> \<open>q = j\<close> by simp
    next
      assume "p = i" "q \<noteq> j"
      have "(\<Sum>k = 0..<n. (A i k - t * A j k) * B k q)
            = (\<Sum>k = 0..<n. A i k * B k q) - t * (\<Sum>k = 0..<n. A j k * B k q)"
        by (simp add: algebra_simps sum_subtractf sum_distrib_left)
      also have "\<dots> = Identity i q"
        using ij pq \<open>q \<noteq> j\<close> by (simp add: P) (simp add: Identity_def)
      finally show ?thesis using \<open>p = i\<close> \<open>q \<noteq> j\<close> by simp
    next
      assume "p \<noteq> i" "q = j"
      have "(\<Sum>k = 0..<n. A p k * (B k j + t * B k i))
            = (\<Sum>k = 0..<n. A p k * B k j) + t * (\<Sum>k = 0..<n. A p k * B k i)"
        by (simp add: algebra_simps sum.distrib sum_distrib_left)
      also have "\<dots> = Identity p j"
        using ij pq \<open>p \<noteq> i\<close> by (simp add: P) (simp add: Identity_def)
      finally show ?thesis using \<open>p \<noteq> i\<close> \<open>q = j\<close> by simp
    next
      assume "p \<noteq> i" "q \<noteq> j"
      then show ?thesis using pq by (simp add: P)
    qed
    finally show ?thesis .
  qed
  then show ?thesis
    by (simp add: inverse_pair_def product_entry_def A'_def B'_def)
qed

lemma inverse_pair_swap:
  assumes inv: "inverse_pair n A B" and m: "a < n" "b < n"
  shows "inverse_pair n (swap_rows A a b) (swap_cols B a b)"
proof -
  have P: "(\<Sum>k = 0..<n. A p k * B k q) = Identity p q" if "p < n" "q < n" for p q
    using inv that by (simp add: inverse_pair_def product_entry_def)
  define s where "s = (\<lambda>p. if p = a then b else if p = b then a else p)"
  have s: "s p < n" if "p < n" for p using that m by (simp add: s_def)
  have "(\<Sum>k = 0..<n. swap_rows A a b p k * swap_cols B a b k q) = Identity p q"
    if pq: "p < n" "q < n" for p q
  proof -
    have "(\<Sum>k = 0..<n. swap_rows A a b p k * swap_cols B a b k q)
          = (\<Sum>k = 0..<n. A (s p) k * B k (s q))"
      by (intro sum.cong) (auto simp: swap_rows_def swap_cols_def s_def)
    also have "\<dots> = Identity (s p) (s q)"
      using pq by (simp add: P s)
    also have "\<dots> = Identity p q"
      by (auto simp: Identity_def s_def)
    finally show ?thesis .
  qed
  then show ?thesis
    by (simp add: inverse_pair_def product_entry_def)
qed

section \<open>What the reduction and a round leave unchanged\<close>

lemma fold_invariant:
  assumes "P s" and "\<And>a s. a \<in> set xs \<Longrightarrow> P s \<Longrightarrow> P (f a s)"
  shows "P (fold f xs s)"
  using assms by (induction xs arbitrary: s) auto

lemma reduce_entry_frame:
  "st_x (reduce_entry n i j st) = st_x st"
  "st_out (reduce_entry n i j st) = st_out st"
  "st_iteration (reduce_entry n i j st) = st_iteration st"
  "st_norm_bound (reduce_entry n i j st) = st_norm_bound st"
  "st_last_norm_bound (reduce_entry n i j st) = st_last_norm_bound st"
  by (simp_all add: reduce_entry_def Let_def)

lemma reduce_entry_inverse_pair:
  assumes "inverse_pair n (st_A st) (st_B st)" "j < i" "i < n"
  shows "inverse_pair n (st_A (reduce_entry n i j st)) (st_B (reduce_entry n i j st))"
  using assms inverse_pair_ledger_reduce [of n "st_A st" "st_B st" i j]
  by (simp add: reduce_entry_def Let_def)

lemma initial_reduction_inverse_pair:
  assumes "inverse_pair n (st_A st) (st_B st)"
  shows "inverse_pair n (st_A (initial_reduction n st)) (st_B (initial_reduction n st))"
  unfolding initial_reduction_def
  by (rule fold_invariant [where P = "\<lambda>s. inverse_pair n (st_A s) (st_B s)"], rule assms,
      rule fold_invariant) (auto intro: reduce_entry_inverse_pair)

lemma reduce_rows_inverse_pair:
  assumes "inverse_pair n (st_A st) (st_B st)"
  shows "inverse_pair n (st_A (reduce_rows n m st)) (st_B (reduce_rows n m st))"
  unfolding reduce_rows_def
  by (rule fold_invariant [where P = "\<lambda>s. inverse_pair n (st_A s) (st_B s)"], rule assms,
      rule fold_invariant) (auto intro: reduce_entry_inverse_pair)

lemma round_update_inverse_pair:
  assumes "inverse_pair n (st_A st) (st_B st)" "m + 1 < n"
  shows "inverse_pair n (st_A (round_update n m st)) (st_B (round_update n m st))"
  unfolding round_update_def Let_def
  by (rule reduce_rows_inverse_pair) (use assms in \<open>simp add: exchange_def inverse_pair_swap\<close>)

lemma select_pivot_range:
  "- 1 \<le> select_pivot gamma n H \<and> select_pivot gamma n H < int (n - 1)"
proof -
  have "case fold (\<lambda>i (gammai, max_term, m).
                  let term = gammai * \<bar>H i i\<bar> in
                  if term > max_term then (gammai * gamma, term, int i)
                  else (gammai * gamma, max_term, m))
               [0..<k] (gamma, 0, - 1) of (g, mt, m) \<Rightarrow> - 1 \<le> m \<and> m < int k" for k
    by (induction k) (auto simp: Let_def split: prod.splits)
  from this [of "n - 1"] show ?thesis
    by (auto simp: select_pivot_def split: prod.splits)
qed

lemma initial_reduction_frame:
  assumes "\<And>s i j. f (reduce_entry n i j s) = f s"
  shows "f (initial_reduction n st) = f st"
  unfolding initial_reduction_def
  by (rule fold_invariant [where P = "\<lambda>s. f s = f st"], simp, rule fold_invariant)
     (simp_all add: assms)

lemma reduce_rows_frame:
  assumes "\<And>s i j. f (reduce_entry n i j s) = f s"
  shows "f (reduce_rows n m st) = f st"
  unfolding reduce_rows_def
  by (rule fold_invariant [where P = "\<lambda>s. f s = f st"], simp, rule fold_invariant)
     (simp_all add: assms)

lemma round_update_frame:
  "st_x (round_update n m st) = st_x st"
  "st_out (round_update n m st) = st_out st"
  "st_iteration (round_update n m st) = st_iteration st"
  "st_last_norm_bound (round_update n m st) = st_last_norm_bound st"
  by (simp_all add: round_update_def Let_def reduce_rows_frame reduce_entry_frame exchange_def)

lemma pslq_initial_x: "pslq_initial T x mx g = Inr st \<Longrightarrow> st_x st = x \<and> 2 \<le> length x"
  by (auto simp: pslq_initial_def Let_def split: if_splits option.splits)

lemma pslq_initial_rejects:
  "pslq_initial T x mx g = Inl (Returned r) \<Longrightarrow> relation r = [] \<and> x_after r = x \<and> (\<exists>msg. Cerr msg \<in> set (written r))"
  by (auto simp: pslq_initial_def Let_def empty_result_def split: if_splits option.splits)

lemma pslq_start_Inr:
  assumes "pslq_start T x mx g = Inr st"
  obtains st0 where "pslq_initial T x mx g = Inr st0"
    and "st = (initial_reduction (length x) st0)
               \<lparr>st_norm_bound := 1 / max_coeff (length x) (st_H (initial_reduction (length x) st0)),
                st_last_norm_bound := 1 / max_coeff (length x) (st_H (initial_reduction (length x) st0))\<rparr>"
  using assms by (auto simp: pslq_start_def Let_def split: sum.splits)

lemma pslq_start_Inl: "pslq_start T x mx g = Inl (Returned r) \<longleftrightarrow> pslq_initial T x mx g = Inl (Returned r)"
  by (auto simp: pslq_start_def Let_def split: sum.splits)

lemma pslq_start_x:
  assumes "pslq_start T x mx g = Inr st"
  shows "st_x st = x \<and> 2 \<le> length x"
proof -
  from assms obtain st0 where "pslq_initial T x mx g = Inr st0"
    and "st = (initial_reduction (length x) st0)
               \<lparr>st_norm_bound := 1 / max_coeff (length x) (st_H (initial_reduction (length x) st0)),
                st_last_norm_bound := 1 / max_coeff (length x) (st_H (initial_reduction (length x) st0))\<rparr>"
    by (rule pslq_start_Inr)
  then show ?thesis
    using pslq_initial_x [of T x mx g st0]
    by (simp add: initial_reduction_frame reduce_entry_frame)
qed

lemma pslq_round_x:
  "pslq_round T mx g st = Continue st' \<Longrightarrow> st_x st' = st_x st"
  "pslq_round T mx g st = Return r \<Longrightarrow> x_after r = st_x st"
  by (auto simp: pslq_round_def Let_def update_norm_bound_def round_update_frame empty_result_def
        extract_relation_def split: if_splits option.splits prod.splits)

lemma loop_head_x: "loop_head T x mx g st \<Longrightarrow> st_x st = x \<and> 2 \<le> length x"
  by (induction rule: loop_head.induct) (auto dest: pslq_start_x pslq_round_x)

lemma pslq_loop_x:
  assumes "pslq_loop T mx g st = Some res"
  shows "\<exists>r. res = Returned r \<and> x_after r = st_x st"
proof (rule pslq_loop.raw_induct
    [where P = "\<lambda>T mx g st res. \<exists>r. res = Returned r \<and> x_after r = st_x st", OF _ assms])
  fix f T mx g st res
  assume IH: "\<And>T mx g st res. f T mx g st = Some res \<Longrightarrow>
                \<exists>r. res = Returned r \<and> x_after r = st_x st"
    and body: "(if st_norm_bound st < mx
                then case pslq_round T mx g st of
                       Return r \<Rightarrow> Some (Returned r)
                     | Continue st' \<Rightarrow> f T mx g st'
                else Some (Returned (empty_result (st_x st) (st_out st @ [Cout Endl])))) = Some res"
  show "\<exists>r. res = Returned r \<and> x_after r = st_x st"
  proof (cases "st_norm_bound st < mx")
    case False
    with body show ?thesis by (auto simp: empty_result_def)
  next
    case True
    show ?thesis
    proof (cases "pslq_round T mx g st")
      case (Return r')
      with True body show ?thesis by (auto dest: pslq_round_x)
    next
      case (Continue st')
      with True body have "f T mx g st' = Some res" by simp
      from IH [OF this] Continue show ?thesis by (simp add: pslq_round_x)
    qed
  qed
qed

lemma loop_head_inverse_pair:
  "loop_head T x mx g st \<Longrightarrow> inverse_pair (length x) (st_A st) (st_B st)"
proof (induction rule: loop_head.induct)
  case (initialised st)
  then obtain st0 where st0: "pslq_initial T x mx g = Inr st0"
    and st: "st = (initial_reduction (length x) st0)
               \<lparr>st_norm_bound := 1 / max_coeff (length x) (st_H (initial_reduction (length x) st0)),
                st_last_norm_bound := 1 / max_coeff (length x) (st_H (initial_reduction (length x) st0))\<rparr>"
    by (rule pslq_start_Inr)
  from st0 have "st_A st0 = Identity" "st_B st0 = Identity"
    by (auto simp: pslq_initial_def Let_def split: if_splits option.splits)
  then have "inverse_pair (length x) (st_A st0) (st_B st0)"
    by (simp add: inverse_pair_Identity)
  then show ?case
    by (simp add: st Let_def initial_reduction_inverse_pair)
next
  case (next_round st st')
  have x: "st_x st = x" "2 \<le> length x" using loop_head_x [OF next_round(1)] by simp_all
  define m where "m = select_pivot g (length x) (st_H st)"
  from next_round(3) have m: "0 \<le> m" "m \<noteq> int (length x) - 1"
    and st': "st' = update_norm_bound mx g (round_update (length x) (nat m) st)"
    by (auto simp: pslq_round_def Let_def x m_def split: if_splits option.splits)
  from select_pivot_range [of g "length x" "st_H st"] m x have "nat m + 1 < length x"
    by (simp add: m_def)
  from round_update_inverse_pair [OF next_round.IH this] show ?case
    by (simp add: st' update_norm_bound_def Let_def)
qed

section \<open>The constructed \<open>s_sq\<close>, \<open>H\<close> and \<open>y\<close> in closed form\<close>

lemma fold_assign_row:
  "fold (\<lambda>j H. assign H i j (g j)) [0..<k] H p q = (if p = i \<and> q < k then g q else H p q)"
  by (induction k arbitrary: p q) (auto simp: assign_def)

lemma fold_assign_rows:
  "fold (\<lambda>i. fold (\<lambda>j H. assign H i j (g i j)) [0..<k]) [0..<r] H p q
     = (if p < r \<and> q < k then g p q else H p q)"
  by (induction r arbitrary: p q) (auto simp: fold_assign_row)

lemma fold_fun_upd:
  "fold (\<lambda>i y. y(i := g i)) [0..<k] y i = (if i < k then g i else y i)"
  by (induction k arbitrary: i) auto

lemma s_sq_fold:
  assumes "k < n" "length s = n" "s ! (n - 1) = suffix_sum x (n - 1)" "length x = n"
  shows "length (fold (\<lambda>i s. s[i := s ! (i + 1) + x ! i * x ! i]) (rev [n - 1 - k..<n - 1]) s) = n \<and>
         (\<forall>i. n - 1 - k \<le> i \<and> i < n \<longrightarrow>
            fold (\<lambda>i s. s[i := s ! (i + 1) + x ! i * x ! i]) (rev [n - 1 - k..<n - 1]) s ! i
              = suffix_sum x i)"
  using assms(1)
proof (induction k)
  case 0
  then show ?case using assms by (auto simp: le_less_Suc_eq dest!: le_antisym)
next
  case (Suc k)
  let ?f = "\<lambda>i s. s[i := s ! (i + 1) + x ! i * x ! i]"
  let ?a = "n - 1 - Suc k"
  have a: "n - 1 - k = Suc ?a" "?a < n - 1" using Suc.prems by auto
  have "[?a..<n - 1] = ?a # [n - 1 - k..<n - 1]"
    using a by (simp add: upt_conv_Cons)
  then have step: "fold ?f (rev [?a..<n - 1]) s = ?f ?a (fold ?f (rev [n - 1 - k..<n - 1]) s)"
    by simp
  define s' where "s' = fold ?f (rev [n - 1 - k..<n - 1]) s"
  have IH: "length s' = n" "\<And>i. n - 1 - k \<le> i \<Longrightarrow> i < n \<Longrightarrow> s' ! i = suffix_sum x i"
    using Suc.IH Suc.prems by (auto simp: s'_def)
  have "suffix_sum x ?a = suffix_sum x (Suc ?a) + x ! ?a * x ! ?a"
    using a assms(4) by (simp add: suffix_sum_def sum.atLeast_Suc_lessThan)
  then have "?f ?a s' ! ?a = suffix_sum x ?a"
    using IH a by simp
  moreover have "?f ?a s' ! i = suffix_sum x i" if "n - 1 - k \<le> i" "i < n" for i
    using IH that a by simp
  ultimately have "\<forall>i. ?a \<le> i \<and> i < n \<longrightarrow> ?f ?a s' ! i = suffix_sum x i"
    using a by (metis Suc_leI le_neq_implies_less less_or_eq_imp_le)
  then show ?case
    unfolding step s'_def [symmetric] using IH by simp
qed

lemma s_sq_nth:
  assumes "x \<noteq> []" "i < length x"
  shows "s_sq x ! i = suffix_sum x i"
proof -
  define n where "n = length x"
  have n: "0 < n" using assms by (simp add: n_def)
  define s0 where "s0 = (replicate n (0::real))[n - 1 := last x * last x]"
  have "last x = x ! (n - 1)" using assms by (simp add: last_conv_nth n_def)
  moreover have "{n - 1..<n} = {n - 1}" using n by auto
  ultimately have s0: "length s0 = n" "s0 ! (n - 1) = suffix_sum x (n - 1)"
    using n by (simp_all add: s0_def suffix_sum_def flip: n_def)
  have "n - 1 < n" "length x = n" "n - 1 - (n - 1) = 0" using n by (simp_all add: n_def)
  from s_sq_fold [OF this(1) s0 this(2)]
  have "fold (\<lambda>i s. s[i := s ! (i + 1) + x ! i * x ! i]) (rev [0..<n - 1]) s0 ! i = suffix_sum x i"
    using assms(2) unfolding \<open>n - 1 - (n - 1) = 0\<close> \<open>length x = n\<close> by blast
  then show ?thesis
    unfolding s_sq_def Let_def s0_def n_def .
qed

lemma build_y_nth: "i < length x \<Longrightarrow> build_y x s i = x ! i / sqrt (s ! 0)"
  by (simp add: build_y_def fold_fun_upd)

lemma build_H_entry:
  assumes "i < length x" "j < length x - 1"
  shows "build_H x s i j =
           (if i < j then 0
            else if i = j then sqrt (s ! (i + 1) / s ! i)
            else - x ! i * x ! j / sqrt (s ! j * s ! (j + 1)))"
proof -
  define n where "n = length x"
  define h where "h = (\<lambda>i j. if i < j then 0
                  else if i = j then sqrt (s ! (i + 1) / s ! i)
                  else - x ! i * x ! j / sqrt (s ! j * s ! (j + 1)))"
  have body: "(\<lambda>i. fold (\<lambda>j H.
                  if i < j then assign H i j 0
                  else if i = j then assign H i i (sqrt (s ! (i + 1) / s ! i))
                  else assign H i j (- x ! i * x ! j / sqrt (s ! j * s ! (j + 1))))
                [0..<n - 1]) = (\<lambda>i. fold (\<lambda>j H. assign H i j (h i j)) [0..<n - 1])"
    by (intro ext arg_cong [where f = "\<lambda>f. fold f _"]) (auto simp: h_def)
  have "build_H x s = fold (\<lambda>j H. assign H (n - 1) j (h (n - 1) j)) [0..<n - 1]
          (fold (\<lambda>i. fold (\<lambda>j H. assign H i j (h i j)) [0..<n - 1]) [0..<n - 1] (\<lambda>i j. 0))"
    unfolding build_H_def Let_def n_def [symmetric] body
    by (rule fold_cong) (auto simp: h_def)
  then have "build_H x s i j = h i j"
    using assms by (auto simp: fold_assign_row fold_assign_rows n_def)
  then show ?thesis by (simp add: h_def)
qed

lemma pslq_initial_H_y:
  "pslq_initial T x mx g = Inr st \<Longrightarrow>
   st_y st = build_y x (s_sq x) \<and> st_H st = build_H x (s_sq x) \<and>
   st_A st = Identity \<and> st_B st = Identity"
  by (auto simp: pslq_initial_def Let_def split: if_splits option.splits)

section \<open>What the guards establish\<close>

lemma check_entries_None: "check_entries x = None \<longleftrightarrow> (\<forall>t \<in> set x. 0 < t)"
  by (induction x) auto

lemma is_sorted_iff: "is_sorted x \<longleftrightarrow> (\<forall>i. Suc i < length x \<longrightarrow> x ! i \<le> x ! Suc i)"
proof (induction x rule: is_sorted.induct)
  case (1 a b xs)
  show ?case
  proof
    assume "is_sorted (a # b # xs)"
    then have ab: "a \<le> b" and rest: "\<forall>i. Suc i < length (b # xs) \<longrightarrow> (b # xs) ! i \<le> (b # xs) ! Suc i"
      using 1 by auto
    show "\<forall>i. Suc i < length (a # b # xs) \<longrightarrow> (a # b # xs) ! i \<le> (a # b # xs) ! Suc i"
    proof (intro allI impI)
      fix i assume "Suc i < length (a # b # xs)"
      then show "(a # b # xs) ! i \<le> (a # b # xs) ! Suc i"
        using ab rest by (cases i) auto
    qed
  next
    assume h: "\<forall>i. Suc i < length (a # b # xs) \<longrightarrow> (a # b # xs) ! i \<le> (a # b # xs) ! Suc i"
    from h [rule_format, of 0] have "a \<le> b" by simp
    moreover have "\<forall>i. Suc i < length (b # xs) \<longrightarrow> (b # xs) ! i \<le> (b # xs) ! Suc i"
      using h [rule_format, of "Suc i" for i] by auto
    ultimately show "is_sorted (a # b # xs)" using 1 by auto
  qed
qed auto

lemma pslq_initial_guard:
  assumes "pslq_initial T x mx g = Inr st"
  shows "is_sorted x" "2 \<le> length x" "check_entries x = None" "\<not> g \<le> 2 / sqrt 3"
    "\<not> (tau g \<le> 1 \<or> tau g \<ge> 2)"
    "\<not> mx * mx * s_sq x ! 0 > 1 / epsilon T"
    "find (\<lambda>i. \<bar>float_distance T (build_y x (s_sq x) i) (build_y x (s_sq x) (i - 1))\<bar> \<le> 2)
        [1..<length x] = None"
  using assms by (auto simp: pslq_initial_def Let_def split: if_splits option.splits)

lemma validated_strictly_increasing:
  assumes st: "pslq_initial T x mx g = Inr st" and fd: "\<forall>a. \<bar>float_distance T a a\<bar> \<le> 2"
  shows "sorted_wrt (<) x"
proof -
  note g = pslq_initial_guard [OF st]
  have "x ! i < x ! Suc i" if i: "Suc i < length x" for i
  proof -
    have le: "x ! i \<le> x ! Suc i" using g(1) i by (simp add: is_sorted_iff)
    have "Suc i \<in> set [1..<length x]" using i by simp
    with g(7) have "\<not> \<bar>float_distance T (build_y x (s_sq x) (Suc i)) (build_y x (s_sq x) (Suc i - 1))\<bar> \<le> 2"
      unfolding find_None_iff by blast
    with fd have "build_y x (s_sq x) (Suc i) \<noteq> build_y x (s_sq x) i"
      by (metis diff_Suc_1)
    then have "x ! Suc i \<noteq> x ! i"
      using i by (auto simp: build_y_nth)
    with le show ?thesis by simp
  qed
  then show ?thesis
    by (simp add: sorted_wrt_iff_nth_Suc_transp)
qed

lemma pslq_rejected: "pslq_initial T x mx g = Inl res \<Longrightarrow> pslq T x mx g = Some res"
  by (simp add: pslq_def pslq_start_def)

section \<open>The loop and its exits\<close>

lemma loop_head_pslq:
  "loop_head T x mx g st \<Longrightarrow> pslq T x mx g = pslq_loop T mx g st"
proof (induction rule: loop_head.induct)
  case (initialised st)
  then show ?case by (simp add: pslq_def)
next
  case (next_round st st')
  then show ?case by (simp add: pslq_loop.simps [of T mx g st])
qed

lemma loop_head_exit:
  assumes "loop_head T x mx g st" "\<not> st_norm_bound st < mx"
  shows "pslq T x mx g = Some (Returned \<lparr>relation = [], written = st_out st @ [Cout Endl], x_after = x\<rparr>)"
  using assms loop_head_x [OF assms(1)]
  by (simp add: loop_head_pslq pslq_loop.simps [of T mx g st] empty_result_def)

lemma pslq_initial_last_cerr:
  "pslq_initial T x mx g = Inl (Returned r) \<Longrightarrow> \<exists>msg. last (written r) = Cerr msg"
  by (auto simp: pslq_initial_def Let_def empty_result_def split: if_splits option.splits)


section \<open>The reduction keeps the state regular\<close>

lemma fold_row_update:
  assumes "i \<noteq> j"
  shows "fold (\<lambda>k H. assign H i k (H i k - t * H j k)) [0..<c] H p q
           = (if p = i \<and> q < c then H i q - t * H j q else H p q)"
  using assms by (induction c arbitrary: p q) (auto simp: assign_def)

lemma reduce_entry_cases:
  obtains (skip) "reduce_entry n i j st = st"
  | (step) t where "t \<in> \<int>"
      "st_H (reduce_entry n i j st) =
         fold (\<lambda>k H. assign H i k (H i k - t * H j k)) [0..<j + 1] (st_H st)"
      "st_y (reduce_entry n i j st) = (st_y st)(j := st_y st j + t * st_y st i)"
proof (cases "to_int64 (cpp_round (st_H st i j / st_H st j j)) = 0")
  case True
  then show ?thesis by (intro skip) (simp add: reduce_entry_def Let_def)
next
  case False
  have "cpp_round (st_H st i j / st_H st j j) \<in> \<int>" by (simp add: cpp_round_def)
  then show ?thesis using False by (intro step) (simp_all add: reduce_entry_def Let_def)
qed

lemma sum_delta_real:
  "(\<Sum>p = 0..<n. if p = a then f p else 0) = (if a < n then f a else (0::real))" for n :: nat
  by (induction n) auto

lemma reduce_entry_regular:
  assumes reg: "regular n (st_y st) (st_H st)" and ij: "j < i" "i < n"
  shows "regular n (st_y (reduce_entry n i j st)) (st_H (reduce_entry n i j st))"
proof (cases n i j st rule: reduce_entry_cases)
  case skip
  then show ?thesis using reg by simp
next
  case (step t)
  define H where "H = st_H st"
  define y where "y = st_y st"
  define H' where "H' = st_H (reduce_entry n i j st)"
  define y' where "y' = st_y (reduce_entry n i j st)"
  have lt: "\<And>p q. p < q \<Longrightarrow> q < n - 1 \<Longrightarrow> H p q = 0"
    and yh: "\<And>q. q < n - 1 \<Longrightarrow> (\<Sum>p = 0..<n. y p * H p q) = 0"
    and dg: "\<And>q. q < n - 1 \<Longrightarrow> H q q \<noteq> 0"
    using reg by (auto simp: regular_def lower_trapezoidal_def yH_def H_def y_def)
  have H': "H' p q = (if p = i \<and> q \<le> j then H i q - t * H j q else H p q)" for p q
  proof -
    have "i \<noteq> j" using ij by simp
    from fold_row_update [OF this, of t "j + 1" H p q] show ?thesis
      unfolding H'_def step(2) H_def by (simp add: less_Suc_eq_le)
  qed
  have y': "y' p = (if p = j then y j + t * y i else y p)" for p
    using step(3) by (simp add: y'_def y_def)
  have "lower_trapezoidal n H'"
    using ij lt by (auto simp: lower_trapezoidal_def H')
  moreover have "H' q q \<noteq> 0" if "q < n - 1" for q
    using ij dg that by (auto simp: H')
  moreover have "(\<Sum>p = 0..<n. y' p * H' p q) = 0" if q: "q < n - 1" for q
  proof -
    define c where "c = t * y i * H j q"
    have zero: "c = 0" if "\<not> q \<le> j"
      using lt [of j q] q that by (simp add: c_def)
    have "y' p * H' p q = y p * H p q + (if p = j then c else 0) - (if p = i then c else 0)"
      if "p < n" for p
    proof (cases "q \<le> j")
      case True
      then show ?thesis using ij by (simp add: y' H' algebra_simps c_def)
    next
      case False
      then show ?thesis using ij zero by (simp add: y' H' algebra_simps) (simp add: c_def)
    qed
    then have "(\<Sum>p = 0..<n. y' p * H' p q)
        = (\<Sum>p = 0..<n. y p * H p q + (if p = j then c else 0) - (if p = i then c else 0))"
      by (intro sum.cong) auto
    also have "\<dots> = (\<Sum>p = 0..<n. y p * H p q) + (\<Sum>p = 0..<n. if p = j then c else 0)
                    - (\<Sum>p = 0..<n. if p = i then c else 0)"
      by (simp add: sum.distrib sum_subtractf)
    also have "\<dots> = 0"
      using ij yh [OF q] by (simp add: sum_delta_real)
    finally show ?thesis .
  qed
  ultimately show ?thesis
    by (simp add: regular_def yH_def H'_def y'_def)
qed

lemma initial_reduction_regular:
  assumes "regular n (st_y st) (st_H st)"
  shows "regular n (st_y (initial_reduction n st)) (st_H (initial_reduction n st))"
  unfolding initial_reduction_def
  by (rule fold_invariant [where P = "\<lambda>s. regular n (st_y s) (st_H s)"], rule assms,
      rule fold_invariant) (auto intro: reduce_entry_regular)

lemma reduce_rows_regular:
  assumes "regular n (st_y st) (st_H st)"
  shows "regular n (st_y (reduce_rows n m st)) (st_H (reduce_rows n m st))"
  unfolding reduce_rows_def
  by (rule fold_invariant [where P = "\<lambda>s. regular n (st_y s) (st_H s)"], rule assms,
      rule fold_invariant) (auto intro: reduce_entry_regular)

text \<open>The quotient that the first reduction of the last row rounds is never an integer.\<close>

lemma reduce_entry_last_quotient:
  assumes dg: "st_H st (n - 2) (n - 2) \<noteq> 0"
    and q: "st_H st (n - 1) (n - 2) / st_H st (n - 2) (n - 2) \<notin> \<int>"
    and ij: "j < i" "i < n" and n: "2 \<le> n"
  shows "st_H (reduce_entry n i j st) (n - 2) (n - 2) = st_H st (n - 2) (n - 2) \<and>
         st_H (reduce_entry n i j st) (n - 1) (n - 2) / st_H (reduce_entry n i j st) (n - 2) (n - 2) \<notin> \<int>"
proof (cases n i j st rule: reduce_entry_cases)
  case skip
  then show ?thesis using q by simp
next
  case (step t)
  define H where "H = st_H st"
  define H' where "H' = st_H (reduce_entry n i j st)"
  have H': "H' p q = (if p = i \<and> q \<le> j then H i q - t * H j q else H p q)" for p q
  proof -
    have "i \<noteq> j" using ij by simp
    from fold_row_update [OF this, of t "j + 1" H p q] show ?thesis
      unfolding H'_def step(2) H_def by (simp add: less_Suc_eq_le)
  qed
  have d: "H' (n - 2) (n - 2) = H (n - 2) (n - 2)"
    using ij by (auto simp: H')
  have "H' (n - 1) (n - 2) / H (n - 2) (n - 2) \<notin> \<int>"
  proof (cases "i = n - 1 \<and> n - 2 \<le> j")
    case False
    then show ?thesis using q by (auto simp: H' H_def)
  next
    case True
    then have j: "j = n - 2" using ij n by auto
    have "H' (n - 1) (n - 2) / H (n - 2) (n - 2) = H (n - 1) (n - 2) / H (n - 2) (n - 2) - t"
      using True j dg by (simp add: H' H_def field_simps)
    moreover have "H (n - 1) (n - 2) / H (n - 2) (n - 2) - t \<notin> \<int>"
    proof
      assume "H (n - 1) (n - 2) / H (n - 2) (n - 2) - t \<in> \<int>"
      from Ints_add [OF this step(1)] show False using q by (simp add: H_def)
    qed
    ultimately show ?thesis by simp
  qed
  then show ?thesis
    using d by (simp add: H'_def H_def)
qed

lemma initial_reduction_last_quotient:
  assumes "st_H st (n - 2) (n - 2) \<noteq> 0"
    and "st_H st (n - 1) (n - 2) / st_H st (n - 2) (n - 2) \<notin> \<int>" and "2 \<le> n"
  shows "st_H (initial_reduction n st) (n - 1) (n - 2) \<noteq> 0"
proof -
  let ?P = "\<lambda>s. st_H s (n - 2) (n - 2) \<noteq> 0 \<and> st_H s (n - 1) (n - 2) / st_H s (n - 2) (n - 2) \<notin> \<int>"
  have "?P (initial_reduction n st)"
    unfolding initial_reduction_def
  proof (rule fold_invariant [where P = ?P], goal_cases)
    case 1
    show ?case using assms by simp
  next
    case (2 i s)
    then have i: "i < n" by simp
    show ?case
    proof (rule fold_invariant [where P = ?P], goal_cases)
      case 1
      show ?case using 2 by simp
    next
      case (2 j s')
      then have "j < i" by simp
      from 2(2) have a: "st_H s' (n - 2) (n - 2) \<noteq> 0"
        and b: "st_H s' (n - 1) (n - 2) / st_H s' (n - 2) (n - 2) \<notin> \<int>" by simp_all
      from reduce_entry_last_quotient [OF a b \<open>j < i\<close> i assms(3)] a show ?case by metis
    qed
  qed
  then show ?thesis by auto
qed

section \<open>Exchange and corner removal\<close>

lemma rotate_rows:
  "fold (\<lambda>i H. let t3 = H i m; t4 = H i (m + 1);
                    H' = assign H i m (t1 * t3 + t2 * t4)
                in assign H' i (m + 1) (- t2 * t3 + t1 * t4)) [m..<k] H p q
   = (if m \<le> p \<and> p < k then
        (if q = m then t1 * H p m + t2 * H p (m + 1)
         else if q = m + 1 then - t2 * H p m + t1 * H p (m + 1)
         else H p q)
      else H p q)"
proof -
  define F where "F = (\<lambda>i H. let t3 = H i m; t4 = H i (m + 1);
                    H' = assign H i m (t1 * t3 + t2 * t4)
                in assign H' i (m + 1) (- t2 * t3 + t1 * t4))"
  have F: "F k G p q = (if p = k then
        (if q = m then t1 * G k m + t2 * G k (m + 1)
         else if q = m + 1 then - t2 * G k m + t1 * G k (m + 1)
         else G p q)
      else G p q)" for k G p q
    by (simp add: F_def Let_def assign_def)
  have "fold F [m..<k] H p q = (if m \<le> p \<and> p < k then
        (if q = m then t1 * H p m + t2 * H p (m + 1)
         else if q = m + 1 then - t2 * H p m + t1 * H p (m + 1)
         else H p q)
      else H p q)"
  proof (induction k arbitrary: p q)
    case 0
    show ?case by simp
  next
    case (Suc k)
    show ?case
    proof (cases "m \<le> k")
      case False
      then show ?thesis by auto
    next
      case True
      then have step: "fold F [m..<Suc k] H = F k (fold F [m..<k] H)" by simp
      show ?thesis
        unfolding step F [of k "fold F [m..<k] H"] Suc.IH using True by auto
    qed
  qed
  then show ?thesis by (simp add: F_def)
qed

lemma remove_corner_entry:
  assumes "m + 2 < n"
  shows "remove_corner n m H p q =
     (if m \<le> p \<and> p < n then
        (if q = m then
           H m m / sqrt (H m m * H m m + H m (m + 1) * H m (m + 1)) * H p m
           + H m (m + 1) / sqrt (H m m * H m m + H m (m + 1) * H m (m + 1)) * H p (m + 1)
         else if q = m + 1 then
           - (H m (m + 1) / sqrt (H m m * H m m + H m (m + 1) * H m (m + 1))) * H p m
           + H m m / sqrt (H m m * H m m + H m (m + 1) * H m (m + 1)) * H p (m + 1)
         else H p q)
      else H p q)"
proof -
  have "int m < int n - 2" using assms by simp
  then show ?thesis
    unfolding remove_corner_def Let_def rotate_rows [unfolded Let_def] by simp
qed

lemma remove_corner_none: "\<not> m + 2 < n \<Longrightarrow> remove_corner n m H = H"
  by (auto simp: remove_corner_def)

lemma yH_exchange:
  assumes "m + 1 < n"
  shows "yH n (y(m := y (m + 1), m + 1 := y m)) (swap_rows H m (m + 1)) q = yH n y H q"
proof -
  define c where "c = y (m + 1) * H (m + 1) q - y m * H m q"
  have "(y(m := y (m + 1), m + 1 := y m)) p * swap_rows H m (m + 1) p q
        = y p * H p q + (if p = m then c else 0) - (if p = m + 1 then c else 0)" for p
    by (simp add: swap_rows_def c_def)
  then have "yH n (y(m := y (m + 1), m + 1 := y m)) (swap_rows H m (m + 1)) q
        = (\<Sum>p = 0..<n. y p * H p q + (if p = m then c else 0) - (if p = m + 1 then c else 0))"
    unfolding yH_def by (intro sum.cong) auto
  also have "\<dots> = (\<Sum>p = 0..<n. y p * H p q) + (\<Sum>p = 0..<n. if p = m then c else 0)
                    - (\<Sum>p = 0..<n. if p = m + 1 then c else 0)"
    by (simp add: sum.distrib sum_subtractf)
  also have "\<dots> = yH n y H q"
    using assms by (simp add: sum_delta_real yH_def)
  finally show ?thesis .
qed


text \<open>
  The state between the exchange and the reduction of a round with pivot \<open>m \<le> n - 3\<close>:
  \<open>H1\<close> is \<open>H\<close> with rows \<open>m\<close> and \<open>m + 1\<close> exchanged, \<open>H2\<close> is \<open>H1\<close> after the rotation.
\<close>

lemma corner_rotation:
  assumes lt: "lower_trapezoidal n H" and d: "H (m + 1) (m + 1) \<noteq> 0" and m: "m + 2 < n"
  defines "H1 \<equiv> swap_rows H m (m + 1)"
  defines "t0 \<equiv> sqrt (H1 m m * H1 m m + H1 m (m + 1) * H1 m (m + 1))"
  defines "H2 \<equiv> remove_corner n m H1"
  shows "0 < t0"
    and "\<And>p q. p < n \<Longrightarrow> H2 p q =
           (if q = m then H1 m m / t0 * H1 p m + H1 m (m + 1) / t0 * H1 p (m + 1)
            else if q = m + 1 then - (H1 m (m + 1) / t0) * H1 p m + H1 m m / t0 * H1 p (m + 1)
            else H1 p q)"
    and "(H1 m m / t0) * (H1 m m / t0) + (H1 m (m + 1) / t0) * (H1 m (m + 1) / t0) = 1"
proof -
  have b: "H1 m (m + 1) \<noteq> 0" using d by (simp add: H1_def swap_rows_def)
  have "0 < H1 m (m + 1) * H1 m (m + 1)" using b by (auto simp: zero_less_mult_iff)
  moreover have "0 \<le> H1 m m * H1 m m" by simp
  ultimately have pos: "0 < H1 m m * H1 m m + H1 m (m + 1) * H1 m (m + 1)" by linarith
  then show t0: "0 < t0" by (simp add: t0_def)
  have sq: "t0 * t0 = H1 m m * H1 m m + H1 m (m + 1) * H1 m (m + 1)"
    using pos by (simp add: t0_def)
  have "(H1 m m / t0) * (H1 m m / t0) + (H1 m (m + 1) / t0) * (H1 m (m + 1) / t0)
        = (H1 m m * H1 m m + H1 m (m + 1) * H1 m (m + 1)) / (t0 * t0)"
    by (simp add: add_divide_distrib)
  also have "\<dots> = 1" using t0 unfolding sq [symmetric] by simp
  finally show "(H1 m m / t0) * (H1 m m / t0) + (H1 m (m + 1) / t0) * (H1 m (m + 1) / t0) = 1" .
  fix p q assume p: "p < n"
  have zero: "H1 p m = 0 \<and> H1 p (m + 1) = 0" if "p < m"
    using that lt m by (simp add: H1_def swap_rows_def lower_trapezoidal_def)
  show "H2 p q =
           (if q = m then H1 m m / t0 * H1 p m + H1 m (m + 1) / t0 * H1 p (m + 1)
            else if q = m + 1 then - (H1 m (m + 1) / t0) * H1 p m + H1 m m / t0 * H1 p (m + 1)
            else H1 p q)"
    unfolding H2_def remove_corner_entry [OF m] t0_def [symmetric]
    using p zero by (cases "m \<le> p") (simp_all add: not_le)
qed




lemma exchange_corner_regular:
  assumes reg: "regular n y H" and m: "m + 1 < n" and last: "H (n - 1) (n - 2) \<noteq> 0"
  shows "regular n (y(m := y (m + 1), m + 1 := y m)) (remove_corner n m (swap_rows H m (m + 1)))"
proof -
  define y1 where "y1 = y(m := y (m + 1), m + 1 := y m)"
  define H1 where "H1 = swap_rows H m (m + 1)"
  define H2 where "H2 = remove_corner n m H1"
  have lt: "lower_trapezoidal n H"
    and lt': "\<And>p q. p < q \<Longrightarrow> q < n - 1 \<Longrightarrow> H p q = 0"
    and dg: "\<And>q. q < n - 1 \<Longrightarrow> H q q \<noteq> 0"
    using reg by (auto simp: regular_def lower_trapezoidal_def)
  have yh1: "yH n y1 H1 q = 0" if "q < n - 1" for q
  proof -
    have "yH n y1 H1 q = yH n y H q"
      unfolding y1_def H1_def by (rule yH_exchange [OF m])
    then show ?thesis using reg that by (simp add: regular_def)
  qed
  have H1: "H1 p = (if p = m then H (m + 1) else if p = m + 1 then H m else H p)" for p
    by (simp add: H1_def swap_rows_def)
  have "regular n y1 H2"
  proof (cases "m + 2 < n")
    case False
    then have mn: "m = n - 2" "n - 1 = m + 1" using m by auto
    have "H2 = H1" using False by (simp add: H2_def remove_corner_none)
    moreover have "lower_trapezoidal n H1"
      using lt' mn by (auto simp: lower_trapezoidal_def H1)
    moreover have "H1 q q \<noteq> 0" if "q < n - 1" for q
      using that dg last mn by (auto simp: H1)
    ultimately show ?thesis
      using yh1 by (simp add: regular_def)
  next
    case True
    define t0 where "t0 = sqrt (H1 m m * H1 m m + H1 m (m + 1) * H1 m (m + 1))"
    define t1 where "t1 = H1 m m / t0"
    define t2 where "t2 = H1 m (m + 1) / t0"
    have d: "H (m + 1) (m + 1) \<noteq> 0" using dg True by simp
    note r = corner_rotation [OF lt d True, folded H1_def, folded t0_def, folded H2_def t1_def t2_def]
    have t0: "t0 * t0 = H1 m m * H1 m m + H1 m (m + 1) * H1 m (m + 1)"
      using r(1) by (simp add: t0_def)
    have b: "H1 m (m + 1) \<noteq> 0" using d by (simp add: H1)
    have t2: "t2 \<noteq> 0" using b r(1) by (simp add: t2_def)
    have corner: "- t2 * H1 m m + t1 * H1 m (m + 1) = 0"
      by (simp add: t1_def t2_def)
    have head: "t1 * H1 m m + t2 * H1 m (m + 1) = t0"
    proof -
      have "t1 * H1 m m + t2 * H1 m (m + 1) = (t0 * t0) / t0"
        unfolding t0 by (simp add: t1_def t2_def add_divide_distrib)
      then show ?thesis using r(1) by simp
    qed
    have "H2 p q = 0" if "p < q" "q < n - 1" for p q
    proof -
      have p: "p < n" "m < n" "Suc m < n" using that True by simp_all
      from that have "q = m \<or> (q = m + 1 \<and> p = m) \<or> (q = m + 1 \<and> p < m)
                        \<or> (q \<noteq> m \<and> q \<noteq> m + 1)"
        by linarith
      then consider "q = m" | "q = m + 1" "p = m" | "q = m + 1" "p < m" | "q \<noteq> m" "q \<noteq> m + 1"
        by blast
      then show ?thesis
      proof cases
        case 1
        then show ?thesis using that lt' True p by (simp add: r(2) H1)
      next
        case 2
        then show ?thesis using corner p by (simp add: r(2))
      next
        case 3
        then show ?thesis using that lt' True p by (simp add: r(2) H1)
      next
        case 4
        then show ?thesis using that lt' p by (auto simp: r(2) H1)
      qed
    qed
    then have "lower_trapezoidal n H2" by (simp add: lower_trapezoidal_def)
    moreover have "H2 q q \<noteq> 0" if q: "q < n - 1" for q
    proof -
      have p: "q < n" "m < n" "Suc m < n" using q True by simp_all
      consider "q = m" | "q = m + 1" | "q \<noteq> m" "q \<noteq> m + 1" by blast
      then show ?thesis
      proof cases
        case 1
        then show ?thesis using head r(1) p by (simp add: r(2))
      next
        case 2
        have "H m (m + 1) = 0" using lt' [of m "m + 1"] True by simp
        moreover have "H m m \<noteq> 0" using dg [of m] True by simp
        ultimately show ?thesis using 2 t2 p by (simp add: r(2) H1)
      next
        case 3
        then show ?thesis using dg [OF q] p by (simp add: r(2) H1)
      qed
    qed
    moreover have "yH n y1 H2 q = 0" if q: "q < n - 1" for q
    proof -
      consider "q = m" | "q = m + 1" | "q \<noteq> m" "q \<noteq> m + 1" by blast
      then show ?thesis
      proof cases
        case 1
        have "yH n y1 H2 m = (\<Sum>p = 0..<n. t1 * (y1 p * H1 p m) + t2 * (y1 p * H1 p (m + 1)))"
          unfolding yH_def by (intro sum.cong) (simp_all add: r(2) algebra_simps)
        also have "\<dots> = t1 * yH n y1 H1 m + t2 * yH n y1 H1 (m + 1)"
          by (simp add: yH_def sum.distrib sum_distrib_left)
        also have "\<dots> = 0" using True by (simp add: yh1)
        finally show ?thesis using 1 by simp
      next
        case 2
        have "yH n y1 H2 (m + 1)
              = (\<Sum>p = 0..<n. - t2 * (y1 p * H1 p m) + t1 * (y1 p * H1 p (m + 1)))"
          unfolding yH_def by (intro sum.cong) (simp_all add: r(2) algebra_simps)
        also have "\<dots> = - t2 * yH n y1 H1 m + t1 * yH n y1 H1 (m + 1)"
          by (simp add: yH_def sum.distrib sum_distrib_left del: mult_minus_left)
        also have "\<dots> = 0" using True by (simp add: yh1)
        finally show ?thesis using 2 by simp
      next
        case 3
        have "yH n y1 H2 q = yH n y1 H1 q"
          unfolding yH_def using 3 by (intro sum.cong) (simp_all add: r(2))
        then show ?thesis using q by (simp add: yh1)
      qed
    qed
    ultimately show ?thesis by (simp add: regular_def)
  qed
  then show ?thesis by (simp add: y1_def H1_def H2_def)
qed

section \<open>The constructed state is regular\<close>

lemma round_update_regular:
  assumes "regular n (st_y st) (st_H st)" "m + 1 < n" "st_H st (n - 1) (n - 2) \<noteq> 0"
  shows "regular n (st_y (round_update n m st)) (st_H (round_update n m st))"
proof -
  have "regular n (st_y (exchange m st)) (remove_corner n m (st_H (exchange m st)))"
    using exchange_corner_regular [OF assms] by (simp add: exchange_def)
  then show ?thesis
    unfolding round_update_def Let_def by (intro reduce_rows_regular) simp
qed

lemma regular_last_entry:
  assumes reg: "regular n y H" and n: "2 \<le> n" and y: "y (n - 2) \<noteq> 0"
  shows "H (n - 1) (n - 2) \<noteq> 0"
proof
  assume z: "H (n - 1) (n - 2) = 0"
  obtain k where k: "n = Suc (Suc k)" using n by (metis add_2_eq_Suc le_Suc_ex)
  have "H p k = 0" if "p < k" for p
    using reg that by (simp add: regular_def lower_trapezoidal_def k)
  then have "(\<Sum>p = 0..<k. y p * H p k) = 0" by simp
  moreover have "yH n y H k = 0" using reg by (simp add: regular_def k)
  ultimately have "y k * H k k = 0" using z by (simp add: yH_def k)
  moreover have "H k k \<noteq> 0" using reg by (simp add: regular_def k)
  ultimately show False using y by (simp add: k)
qed

lemma between_not_int: "- 1 < r \<Longrightarrow> r < 0 \<Longrightarrow> r \<notin> \<int>" for r :: real
proof
  assume r: "- 1 < r" "r < 0" "r \<in> \<int>"
  then obtain k :: int where "r = of_int k" by (auto elim: Ints_cases)
  with r(1,2) have "- 1 < k" "k < 0" by simp_all
  then show False by simp
qed

lemma suffix_sum_pos:
  assumes "\<forall>t \<in> set x. 0 < t" "i < length x"
  shows "0 < suffix_sum x i"
proof -
  have "0 < x ! k * x ! k" if "k < length x" for k
    using assms(1) that by (simp add: zero_less_mult_iff)
  then have "0 < (\<Sum>k \<in> {i..<length x}. x ! k * x ! k)"
    using assms(2) by (intro sum_pos) auto
  then show ?thesis by (simp add: suffix_sum_def)
qed

lemma suffix_sum_Suc:
  "i < length x \<Longrightarrow> suffix_sum x i = x ! i * x ! i + suffix_sum x (Suc i)"
  by (simp add: suffix_sum_def sum.atLeast_Suc_lessThan)


lemma sqrt_quotient: "0 < a \<Longrightarrow> 0 < b \<Longrightarrow> sqrt (b / a) = b / sqrt (a * b)"
proof -
  assume ab: "0 < a" "0 < b"
  have bb: "sqrt b * sqrt b = b" and nz: "sqrt a \<noteq> 0" "sqrt b \<noteq> 0" using ab by simp_all
  have "b / sqrt (a * b) = b / (sqrt a * sqrt b)"
    by (simp add: real_sqrt_mult)
  also have "\<dots> = (sqrt b * sqrt b) / (sqrt a * sqrt b)"
    by (simp only: bb)
  also have "\<dots> = sqrt b / sqrt a" using nz(2) by (rule mult_divide_mult_cancel_right)
  finally show ?thesis by (simp add: real_sqrt_divide)
qed

lemma initial_regular:
  assumes pos: "\<forall>t \<in> set x. 0 < t" and n: "2 \<le> length x"
  shows "regular (length x) (build_y x (s_sq x)) (build_H x (s_sq x))"
proof -
  define n where "n = length x"
  define s where "s = suffix_sum x"
  define y where "y = build_y x (s_sq x)"
  define H where "H = build_H x (s_sq x)"
  have x: "x \<noteq> []" "0 < n" using n by (auto simp: n_def)
  have ss: "s_sq x ! k = s k" if "k < n" for k
    using s_sq_nth [OF x(1)] that by (simp add: s_def n_def)
  have sp: "0 < s k" if "k < n" for k
    using suffix_sum_pos [OF pos] that by (simp add: s_def n_def)
  have yc: "y p = x ! p / sqrt (s 0)" if "p < n" for p
    using that x by (simp add: y_def build_y_nth ss n_def [symmetric])
  have Hc: "H p q = (if p < q then 0
            else if p = q then sqrt (s (p + 1) / s p)
            else - x ! p * x ! q / sqrt (s q * s (q + 1)))" if "p < n" "q < n - 1" for p q
    using that build_H_entry [of p x q "s_sq x"] by (auto simp: H_def ss n_def [symmetric])
  have "H p q = 0" if "p < q" "q < n - 1" for p q
    using that Hc [of p q] by simp
  then have "lower_trapezoidal n H"
    by (simp add: lower_trapezoidal_def)
  moreover have "H q q \<noteq> 0" if q: "q < n - 1" for q
  proof -
    have "0 < s (q + 1)" "0 < s q" using q by (simp_all add: sp)
    then show ?thesis using q by (simp add: Hc)
  qed
  moreover have "yH n y H q = 0" if q: "q < n - 1" for q
  proof -
    define c where "c = x ! q / (sqrt (s 0) * sqrt (s q * s (q + 1)))"
    have a: "0 < s q" "0 < s (q + 1)" using q by (simp_all add: sp)
    have below: "y p * H p q = 0" if "p < q" for p
      using that q by (simp add: Hc)
    have above: "y p * H p q = - c * (x ! p * x ! p)" if "q < p" "p < n" for p
      using that q by (simp add: Hc yc c_def)
    have "yH n y H q = (\<Sum>p = 0..<q. y p * H p q) + (\<Sum>p = q..<n. y p * H p q)"
      unfolding yH_def using q by (intro sum.atLeastLessThan_concat [symmetric]) simp_all
    also have "(\<Sum>p = 0..<q. y p * H p q) = 0"
      by (intro sum.neutral) (simp add: below)
    also have "(\<Sum>p = q..<n. y p * H p q) = y q * H q q + (\<Sum>p = Suc q..<n. y p * H p q)"
      using q by (simp add: sum.atLeast_Suc_lessThan)
    also have "0 + (y q * H q q + (\<Sum>p = Suc q..<n. y p * H p q))
               = y q * H q q + (\<Sum>p = Suc q..<n. y p * H p q)"
      by simp
    also have "(\<Sum>p = Suc q..<n. y p * H p q) = (\<Sum>p = Suc q..<n. - c * (x ! p * x ! p))"
      by (intro sum.cong) (simp_all add: above)
    also have "\<dots> = - c * s (q + 1)"
      by (simp add: s_def suffix_sum_def sum_distrib_left n_def del: mult_minus_left)
    also have "y q * H q q + - c * s (q + 1)
               = x ! q / sqrt (s 0) * (sqrt (s (q + 1) / s q) - s (q + 1) / sqrt (s q * s (q + 1)))"
      using q by (simp add: Hc yc c_def algebra_simps)
    also have "\<dots> = 0"
      using sqrt_quotient [OF a] by simp
    finally show ?thesis .
  qed
  ultimately show ?thesis
    by (simp add: regular_def n_def y_def H_def)
qed

lemma initial_last_quotient:
  assumes pos: "\<forall>t \<in> set x. 0 < t" and n: "2 \<le> length x"
    and strict: "x ! (length x - 2) < x ! (length x - 1)"
  shows "build_H x (s_sq x) (length x - 1) (length x - 2)
           / build_H x (s_sq x) (length x - 2) (length x - 2) \<notin> \<int>"
proof -
  define n where "n = length x"
  define s where "s = suffix_sum x"
  define H where "H = build_H x (s_sq x)"
  obtain k where k: "n = Suc (Suc k)" using n by (metis add_2_eq_Suc le_Suc_ex n_def)
  have x: "x \<noteq> []" using n by auto
  have ss: "s_sq x ! i = s i" if "i < n" for i
    using s_sq_nth [OF x] that by (simp add: s_def n_def)
  have xp: "0 < x ! k" "0 < x ! Suc k"
    using pos k by (simp_all add: n_def [symmetric])
  have s1: "s (Suc k) = x ! Suc k * x ! Suc k"
    using k by (simp add: s_def suffix_sum_def n_def [symmetric])
  have s0: "0 < s k" using suffix_sum_pos [OF pos, of k] k by (simp add: s_def n_def [symmetric])
  have s1p: "0 < s (Suc k)" using xp by (simp add: s1)
  have d: "H k k = sqrt (s (Suc k) / s k)"
    using build_H_entry [of k x k "s_sq x"] k by (simp add: H_def ss n_def [symmetric])
  have l: "H (Suc k) k = - x ! Suc k * x ! k / sqrt (s k * s (Suc k))"
    using build_H_entry [of "Suc k" x k "s_sq x"] k by (simp add: H_def ss n_def [symmetric])
  have "H (Suc k) k / H k k = - x ! Suc k * x ! k / s (Suc k)"
    using s0 s1p by (simp add: d l sqrt_quotient)
  also have "\<dots> = - (x ! k / x ! Suc k)"
    using xp by (simp add: s1)
  finally have q: "H (Suc k) k / H k k = - (x ! k / x ! Suc k)" .
  have "x ! k < x ! Suc k" using strict k by (simp add: n_def [symmetric])
  then have "x ! k / x ! Suc k < 1" "0 < x ! k / x ! Suc k" using xp by simp_all
  then have "H (Suc k) k / H k k \<notin> \<int>"
    unfolding q by (intro between_not_int) simp_all
  then show ?thesis by (simp add: H_def n_def [symmetric] k)
qed

section \<open>Every state at the head of the loop is regular\<close>

lemma loop_head_validated:
  "loop_head T x mx g st \<Longrightarrow> \<exists>st0. pslq_initial T x mx g = Inr st0"
  by (induction rule: loop_head.induct) (auto elim: pslq_start_Inr)

lemma pslq_round_Continue:
  assumes "pslq_round T mx g st = Continue st'"
  defines "n \<equiv> length (st_x st)"
  defines "m \<equiv> select_pivot g n (st_H st)"
  shows "0 \<le> m" "m \<noteq> int n - 1"
    "solution_index T n (st_y (round_update n (nat m) st)) = None"
    "st' = update_norm_bound mx g (round_update n (nat m) st)"
  using assms by (auto simp: pslq_round_def Let_def split: if_splits option.splits)

lemma update_norm_bound_H_y:
  "st_H (update_norm_bound mx g st) = st_H st" "st_y (update_norm_bound mx g st) = st_y st"
  "st_A (update_norm_bound mx g st) = st_A st" "st_B (update_norm_bound mx g st) = st_B st"
  by (simp_all add: update_norm_bound_def Let_def)

lemma solution_index_None:
  "solution_index T n y = None \<longleftrightarrow> (\<forall>i < n. \<not> \<bar>y i\<bar> < threshold T)"
  by (auto simp: solution_index_def find_None_iff)

lemma loop_head_regular:
  assumes lh: "loop_head T x mx g st"
    and fd: "\<forall>a. \<bar>float_distance T a a\<bar> \<le> 2" and eps: "0 < epsilon T"
  shows "regular (length x) (st_y st) (st_H st) \<and> st_H st (length x - 1) (length x - 2) \<noteq> 0"
  using lh
proof (induction rule: loop_head.induct)
  case (initialised st)
  define n where "n = length x"
  from initialised obtain st0 where st0: "pslq_initial T x mx g = Inr st0"
    and st: "st = (initial_reduction n st0)
               \<lparr>st_norm_bound := 1 / max_coeff n (st_H (initial_reduction n st0)),
                st_last_norm_bound := 1 / max_coeff n (st_H (initial_reduction n st0))\<rparr>"
    unfolding n_def by (rule pslq_start_Inr)
  note g = pslq_initial_guard [OF st0]
  have pos: "\<forall>t \<in> set x. 0 < t" using g(3) by (simp add: check_entries_None)
  have n: "2 \<le> n" using g(2) by (simp add: n_def)
  have yH0: "st_y st0 = build_y x (s_sq x)" "st_H st0 = build_H x (s_sq x)"
    using pslq_initial_H_y [OF st0] by simp_all
  have reg0: "regular n (st_y st0) (st_H st0)"
    unfolding yH0 n_def using pos g(2) by (rule initial_regular)
  have "sorted_wrt (<) x" using st0 fd by (rule validated_strictly_increasing)
  moreover have "n - 2 < n - 1" "n - 1 < length x" using n by (simp_all add: n_def)
  ultimately have "x ! (n - 2) < x ! (n - 1)"
    by (rule sorted_wrt_nth_less)
  then have q0: "st_H st0 (n - 1) (n - 2) / st_H st0 (n - 2) (n - 2) \<notin> \<int>"
    unfolding yH0 n_def using initial_last_quotient [OF pos g(2)] by simp
  have d0: "st_H st0 (n - 2) (n - 2) \<noteq> 0"
    using reg0 n by (simp add: regular_def)
  have "st_H (initial_reduction n st0) (n - 1) (n - 2) \<noteq> 0"
    using d0 q0 n by (rule initial_reduction_last_quotient)
  moreover have "regular n (st_y (initial_reduction n st0)) (st_H (initial_reduction n st0))"
    using reg0 by (rule initial_reduction_regular)
  ultimately show ?case by (simp add: st n_def)
next
  case (next_round st st')
  define n where "n = length x"
  have x: "st_x st = x" "2 \<le> n" using loop_head_x [OF next_round(1)] by (simp_all add: n_def)
  define m where "m = select_pivot g n (st_H st)"
  note c = pslq_round_Continue [OF next_round(3), unfolded x, folded n_def, folded m_def]
  have m: "nat m + 1 < n"
    using select_pivot_range [of g n "st_H st"] c(1,2) x(2) by (simp add: m_def)
  define st1 where "st1 = round_update n (nat m) st"
  have reg: "regular n (st_y st1) (st_H st1)"
    unfolding st1_def using next_round.IH m by (intro round_update_regular) (simp_all add: n_def)
  have "0 < threshold T" using eps by (simp add: threshold_def)
  moreover have "\<not> \<bar>st_y st1 (n - 2)\<bar> < threshold T"
    using c(3) x(2) by (simp add: solution_index_None st1_def)
  ultimately have "st_y st1 (n - 2) \<noteq> 0" by auto
  with reg x(2) have "st_H st1 (n - 1) (n - 2) \<noteq> 0" by (rule regular_last_entry)
  with reg show ?case
    unfolding c(4) update_norm_bound_H_y st1_def n_def by simp
qed

section \<open>The pivot\<close>

lemma select_pivot_fold:
  fixes H :: "real matrix" and gamma :: real
  defines "step \<equiv> (\<lambda>i (gammai, max_term, m).
                  let term = gammai * \<bar>H i i\<bar> in
                  if term > max_term then (gammai * gamma, term, int i)
                  else (gammai * gamma, max_term, m))"
  shows "case fold step [0..<k] (gamma, 0, - 1) of (gammai, max_term, m) \<Rightarrow>
           gammai = gamma ^ (k + 1) \<and>
           (\<forall>i < k. gamma ^ (i + 1) * \<bar>H i i\<bar> \<le> max_term) \<and>
           (m = - 1 \<and> max_term = 0 \<or>
            0 \<le> m \<and> nat m < k \<and> 0 < max_term \<and>
            max_term = gamma ^ (nat m + 1) * \<bar>H (nat m) (nat m)\<bar> \<and>
            (\<forall>i < nat m. gamma ^ (i + 1) * \<bar>H i i\<bar> < max_term))"
proof (induction k)
  case 0
  show ?case by simp
next
  case (Suc k)
  obtain gi mt m where f: "fold step [0..<k] (gamma, 0, - 1) = (gi, mt, m)"
    by (cases "fold step [0..<k] (gamma, 0, - 1)") auto
  from Suc [unfolded f] have IH: "gi = gamma ^ (k + 1)"
      "\<And>i. i < k \<Longrightarrow> gamma ^ (i + 1) * \<bar>H i i\<bar> \<le> mt"
      "m = - 1 \<and> mt = 0 \<or>
            0 \<le> m \<and> nat m < k \<and> 0 < mt \<and>
            mt = gamma ^ (nat m + 1) * \<bar>H (nat m) (nat m)\<bar> \<and>
            (\<forall>i < nat m. gamma ^ (i + 1) * \<bar>H i i\<bar> < mt)"
    by auto
  have mt0: "0 \<le> mt" using IH(3) by auto
  have nxt: "fold step [0..<Suc k] (gamma, 0, - 1) = step k (gi, mt, m)"
    by (simp add: f)
  show ?case
  proof (cases "gi * \<bar>H k k\<bar> > mt")
    case True
    then have "step k (gi, mt, m) = (gi * gamma, gi * \<bar>H k k\<bar>, int k)"
      by (simp add: step_def)
    moreover have "gamma ^ (i + 1) * \<bar>H i i\<bar> < gi * \<bar>H k k\<bar>" if "i < k" for i
      using IH(2) [OF that] True by simp
    moreover have "0 < gi * \<bar>H k k\<bar>" using True mt0 by simp
    ultimately show ?thesis
      unfolding nxt using IH(1) by (auto simp: less_Suc_eq intro: less_imp_le)
  next
    case False
    then have "step k (gi, mt, m) = (gi * gamma, mt, m)"
      by (simp add: step_def)
    moreover have "gamma ^ (k + 1) * \<bar>H k k\<bar> \<le> mt" using False IH(1) by simp
    ultimately show ?thesis
      unfolding nxt using IH by (auto simp: less_Suc_eq)
  qed
qed

lemma select_pivot_maximal:
  assumes "0 < gamma" and "0 < n - 1" and "H 0 0 \<noteq> 0"
  defines "m \<equiv> select_pivot gamma n H"
  shows "0 \<le> m \<and> nat m < n - 1 \<and>
         (\<forall>i < n - 1. gamma ^ (i + 1) * \<bar>H i i\<bar> \<le> gamma ^ (nat m + 1) * \<bar>H (nat m) (nat m)\<bar>) \<and>
         (\<forall>i < nat m. gamma ^ (i + 1) * \<bar>H i i\<bar> < gamma ^ (nat m + 1) * \<bar>H (nat m) (nat m)\<bar>)"
proof -
  define step where "step = (\<lambda>i (gammai, max_term, m).
                  let term = gammai * \<bar>H i i\<bar> in
                  if term > max_term then (gammai * gamma, term, int i)
                  else (gammai * gamma, max_term, m))"
  obtain gi mt m' where f: "fold step [0..<n - 1] (gamma, 0, - 1) = (gi, mt, m')"
    by (cases "fold step [0..<n - 1] (gamma, 0, - 1)") auto
  have m: "m = m'" unfolding m_def select_pivot_def step_def [symmetric] f by simp
  from select_pivot_fold [where gamma = gamma and H = H and k = "n - 1", folded step_def, unfolded f]
  have r: "\<And>i. i < n - 1 \<Longrightarrow> gamma ^ (i + 1) * \<bar>H i i\<bar> \<le> mt"
      "m' = - 1 \<and> mt = 0 \<or>
            0 \<le> m' \<and> nat m' < n - 1 \<and> 0 < mt \<and>
            mt = gamma ^ (nat m' + 1) * \<bar>H (nat m') (nat m')\<bar> \<and>
            (\<forall>i < nat m'. gamma ^ (i + 1) * \<bar>H i i\<bar> < mt)"
    by auto
  have "0 < gamma ^ (0 + 1) * \<bar>H 0 0\<bar>" using assms(1,3) by simp
  with r(1) [OF assms(2)] have "0 < mt" by linarith
  with r(2) have "0 \<le> m' \<and> nat m' < n - 1 \<and>
            mt = gamma ^ (nat m' + 1) * \<bar>H (nat m') (nat m')\<bar> \<and>
            (\<forall>i < nat m'. gamma ^ (i + 1) * \<bar>H i i\<bar> < mt)" by auto
  with r(1) show ?thesis unfolding m by auto
qed

lemma loop_head_gamma: "loop_head T x mx g st \<Longrightarrow> 0 < g"
proof -
  assume "loop_head T x mx g st"
  then obtain st0 where "pslq_initial T x mx g = Inr st0"
    using loop_head_validated by blast
  from pslq_initial_guard(4) [OF this] have "2 / sqrt 3 < g" by simp
  moreover have "0 < 2 / sqrt 3" by simp
  ultimately show ?thesis by linarith
qed

lemma loop_head_pivot:
  assumes lh: "loop_head T x mx g st"
    and fd: "\<forall>a. \<bar>float_distance T a a\<bar> \<le> 2" and eps: "0 < epsilon T"
  defines "m \<equiv> select_pivot g (length x) (st_H st)"
  shows "0 \<le> m \<and> nat m < length x - 1 \<and>
     (\<forall>i < length x - 1. g ^ (i + 1) * \<bar>st_H st i i\<bar> \<le> g ^ (nat m + 1) * \<bar>st_H st (nat m) (nat m)\<bar>) \<and>
     (\<forall>i < nat m. g ^ (i + 1) * \<bar>st_H st i i\<bar> < g ^ (nat m + 1) * \<bar>st_H st (nat m) (nat m)\<bar>)"
proof -
  have n: "0 < length x - 1" using loop_head_x [OF lh] by simp
  have "regular (length x) (st_y st) (st_H st)" using loop_head_regular [OF lh fd eps] by simp
  then have "st_H st 0 0 \<noteq> 0" using n by (simp add: regular_def)
  with loop_head_gamma [OF lh] n show ?thesis
    unfolding m_def by (intro select_pivot_maximal)
qed

section \<open>The relation test\<close>

lemma residuals_sums:
  "residuals x B i = ((\<Sum>j = 0..<length x. of_int64 (B j i) * x ! j),
                      (\<Sum>j = 0..<length x. \<bar>of_int64 (B j i) * x ! j\<bar>))"
proof -
  have "fold (\<lambda>j (residual, absum).
             (residual + of_int64 (B j i) * x ! j, absum + \<bar>of_int64 (B j i) * x ! j\<bar>))
          [0..<k] (0, 0)
        = ((\<Sum>j = 0..<k. of_int64 (B j i) * x ! j), (\<Sum>j = 0..<k. \<bar>of_int64 (B j i) * x ! j\<bar>))" for k
    by (induction k) simp_all
  then show ?thesis by (simp add: residuals_def)
qed

lemma relation_fold:
  "fold (\<lambda>j rel. if B j i \<noteq> 0 then rel @ [(B j i, x ! j)] else rel) [0..<k] []
     = map (\<lambda>j. (B j i, x ! j)) (filter (\<lambda>j. B j i \<noteq> 0) [0..<k])"
  by (induction k) simp_all

lemma extract_relation_eq:
  "extract_relation T st i =
     \<lparr>relation = map (\<lambda>j. (st_B st j i, st_x st ! j))
                   (filter (\<lambda>j. st_B st j i \<noteq> 0) [0..<length (st_x st)]),
      written = st_out st
        @ (if \<bar>\<Sum>j = 0..<length (st_x st). of_int64 (st_B st j i) * st_x st ! j\<bar>
               > 16 * epsilon T * (\<Sum>j = 0..<length (st_x st). \<bar>of_int64 (st_B st j i) * st_x st ! j\<bar>)
           then [Cerr (Large_residual
                         \<bar>\<Sum>j = 0..<length (st_x st). of_int64 (st_B st j i) * st_x st ! j\<bar>
                         (16 * epsilon T * (\<Sum>j = 0..<length (st_x st). \<bar>of_int64 (st_B st j i) * st_x st ! j\<bar>)))]
           else [])
        @ [Cout Endl],
      x_after = st_x st\<rparr>"
  by (simp add: extract_relation_def Let_def residuals_sums relation_fold)

lemma solution_index_Some:
  "solution_index T n y = Some i \<longleftrightarrow>
     i < n \<and> \<bar>y i\<bar> < threshold T \<and> (\<forall>k < i. \<not> \<bar>y k\<bar> < threshold T)"
  by (auto simp: solution_index_def find_Some_iff)

lemma inverse_pair_column:
  assumes "inverse_pair n A B" "i < n"
  shows "\<exists>j < n. B j i \<noteq> 0"
proof (rule ccontr)
  assume "\<not> (\<exists>j < n. B j i \<noteq> 0)"
  then have "(\<Sum>k = 0..<n. A i k * B k i) = 0" by simp
  moreover have "(\<Sum>k = 0..<n. A i k * B k i) = 1"
    using assms by (simp add: inverse_pair_def product_entry_def Identity_def)
  ultimately show False by simp
qed

section \<open>The worked input, evaluated\<close>

lemma gamma_two_ok: "\<not> (2::real) \<le> 2 / sqrt 3"
proof -
  have "1 < sqrt 3" by simp
  then show ?thesis by (simp add: field_simps)
qed

lemma tau_two: "tau 2 = sqrt 2"
proof -
  have "tau 2 = 1 / sqrt (1 / 2)" by (simp add: tau_def)
  also have "\<dots> = sqrt 2" by (simp add: real_sqrt_divide)
  finally show ?thesis .
qed

lemma tau_two_ok: "\<not> (tau 2 \<le> 1 \<or> tau 2 \<ge> 2)"
proof -
  have "sqrt 2 < 2" by (rule real_less_lsqrt) simp_all
  then show ?thesis by (simp add: tau_two)
qed

lemma s_sq_34: "s_sq [3, 4] = [25, 16]"
  by (simp add: s_sq_def Let_def)

lemma build_H_34: "build_H [3, 4] [25, 16] = assign (assign (\<lambda>i j. 0) 0 0 (4 / 5)) 1 0 (- 3 / 5)"
  by (simp add: build_H_def Let_def real_sqrt_divide)

lemma build_y_34: "build_y [3, 4] [25, 16] = (\<lambda>i. 0)(0 := 3 / 5, 1 := 4 / 5)"
  by (simp add: build_y_def)

lemma upt2: "[0..<2] = [0, Suc 0]" "[Suc 0..<2] = [Suc 0]" "[0..<Suc 0] = [0]"
  by (simp_all add: upt_rec)

lemma sum_upto_two: "(\<Sum>i = 0..<2. f i) = f 0 + f (1::nat)" for f :: "nat \<Rightarrow> real"
  by (simp add: numeral_2_eq_2)

lemma squaredNorm_34:
  "squaredNorm 2 (assign (assign (\<lambda>i j. 0) 0 0 (4 / 5)) (Suc 0) 0 (- (3 / 5))) = 1"
  by (simp add: squaredNorm_def sum_upto_two assign_def)

lemma yH_34:
  "yH 2 ((\<lambda>i. 0)(0 := 3 / 5, Suc 0 := 4 / 5))
     (assign (assign (\<lambda>i j. 0) 0 0 (4 / 5)) (Suc 0) 0 (- (3 / 5))) 0 = 0"
  by (simp add: yH_def sum_upto_two assign_def)

lemma pslq_initial_34:
  assumes "mx * mx * 25 \<le> 2 ^ 52"
  shows "pslq_initial example_traits [3, 4] mx 2 =
     Inr \<lparr>st_x = [3, 4], st_H = assign (assign (\<lambda>i j. 0) 0 0 (4 / 5)) 1 0 (- 3 / 5),
          st_y = (\<lambda>i. 0)(0 := 3 / 5, 1 := 4 / 5), st_A = Identity, st_B = Identity,
          st_norm_bound = 0, st_last_norm_bound = 0, st_iteration = 0,
          st_out = [Cout (Expected_iterations (expected_iterations 2 mx 2))]\<rparr>"
proof -
  have len: "length [3, 4 :: real] = 2" by simp
  show ?thesis
    unfolding pslq_initial_def len
    using assms
    by (simp add: gamma_two_ok tau_two_ok s_sq_34 build_H_34 build_y_34 Let_def
         example_traits_def squaredNorm_34 yH_34 upt2 not_less)
qed

lemma cpp_round_vals: "cpp_round (- (3 / 4)) = - 1" "cpp_round 4 = 4"
  by (simp_all add: cpp_round_def)

lemma to_int64_vals: "to_int64 (- 1) = - 1" "to_int64 4 = 4"
proof -
  have "\<lceil>- 1 :: real\<rceil> = - 1" using ceiling_of_int [of "- 1", where ?'a = real] by simp
  then show "to_int64 (- 1) = - 1" by (simp add: to_int64_def)
  show "to_int64 4 = 4" by (simp add: to_int64_def)
qed

lemmas eval_simps = reduce_entry_def Let_def assign_def cpp_round_vals to_int64_vals upt2
  ledger_reduce_def ledger_step_def Identity_def initial_reduction_def max_coeff_def

lemmas round_simps = pslq_round_def select_pivot_def round_update_def exchange_def
  remove_corner_def reduce_rows_def swap_rows_def swap_cols_def solution_index_def threshold_def
  example_traits_def extract_relation_def residuals_def of_int64_def empty_result_def
  update_norm_bound_def

lemma start_34:
  "mx * mx * 25 \<le> 2 ^ 52 \<Longrightarrow>
   pslq_start example_traits [3, 4] mx 2 =
     Inr (example_state [Cout (Expected_iterations (expected_iterations 2 mx 2))])"
  apply (simp add: pslq_start_def pslq_initial_34 example_state_def)
  apply (simp add: eval_simps fun_eq_iff flip: numeral_2_eq_2)
  done

lemma round_34:
  "pslq_round example_traits mx 2 (example_state out) =
     Return \<lparr>relation = [(4, 3), (- 3, 4)], written = out @ [Cout Endl], x_after = [3, 4]\<rparr>"
  by (simp add: example_state_def round_simps eval_simps flip: numeral_2_eq_2)

lemma run_34:
  "pslq example_traits [3, 4] 10 2 =
     Some (Returned \<lparr>relation = [(4, 3), (- 3, 4)],
           written = [Cout (Expected_iterations (expected_iterations 2 10 2)), Cout Endl],
           x_after = [3, 4]\<rparr>)"
  by (simp add: pslq_def start_34 pslq_loop.simps round_34) (simp add: example_state_def)

lemma run_34_bound:
  "pslq example_traits [3, 4] 1 2 =
     Some (Returned \<lparr>relation = [],
           written = [Cout (Expected_iterations (expected_iterations 2 1 2)), Cout Endl],
           x_after = [3, 4]\<rparr>)"
  by (simp add: pslq_def start_34 pslq_loop.simps empty_result_def) (simp add: example_state_def)

lemma example_traits_distance: "\<forall>a. \<bar>float_distance example_traits a a\<bar> \<le> 2"
  by (simp add: example_traits_def)

lemma pslq_initial_43:
  "pslq_initial example_traits [4, 3] mx 2 = Inl (Returned (empty_result [4, 3] [Cerr Not_sorted]))"
  by (simp add: pslq_initial_def)



lemma to_int64_minus_two: "to_int64 (- 2) = - 2"
proof -
  have "\<lceil>- 2 :: real\<rceil> = - 2" using ceiling_of_int [of "- 2", where ?'a = real] by simp
  then show ?thesis by (simp add: to_int64_def)
qed

lemma upt3: "[0..<3] = [0, Suc 0, 2]" "[Suc 0..<3] = [Suc 0, 2]" "[2..<3] = [2]"
  by (simp_all add: upt_rec)

lemma sum_upto_three: "(\<Sum>i = 0..<3. f i) = f 0 + f (1::nat) + f 2" for f :: "nat \<Rightarrow> real"
  by (simp add: numeral_3_eq_3 numeral_2_eq_2)

lemma s_sq_3: "s_sq [91, 120, 288] = [105625, 97344, 82944]"
proof -
  have "replicate 3 (0::real) = [0, 0, 0]" by (simp add: numeral_3_eq_3)
  moreover have "rev [0..<2] = [Suc 0, 0]" by (simp add: upt2)
  ultimately show ?thesis
    by (simp add: s_sq_def Let_def numeral_2_eq_2)
qed

lemma sqrt_vals:
  "sqrt 105625 = 325" "sqrt 97344 = 312" "sqrt 82944 = 288"
  "sqrt 10281960000 = 101400" "sqrt 8074100736 = 89856"
  using real_sqrt_abs [of 325] real_sqrt_abs [of 312] real_sqrt_abs [of 288]
    real_sqrt_abs [of 101400] real_sqrt_abs [of 89856]
  by simp_all

lemma build_H_3:
  "build_H [91, 120, 288] [105625, 97344, 82944] =
     assign (assign (assign (assign (assign (\<lambda>i j. 0)
               0 0 (24 / 25)) 1 0 (- 7 / 65)) 1 1 (12 / 13)) 2 0 (- 84 / 325)) 2 1 (- 5 / 13)"
  by (simp add: build_H_def Let_def real_sqrt_divide sqrt_vals upt2 assign_def fun_eq_iff
        flip: numeral_2_eq_2)

lemma build_y_3:
  "build_y [91, 120, 288] [105625, 97344, 82944] = (\<lambda>i. 0)(0 := 7 / 25, 1 := 24 / 65, 2 := 288 / 325)"
  by (simp add: build_y_def upt3 sqrt_vals fun_eq_iff)


lemma threshold_example: "threshold example_traits < 1 / 1000"
proof -
  have "(1 / 2 ^ 52 :: real) powr (15 / 16) \<le> (1 / 2 ^ 52) powr (1 / 2)"
    by (rule powr_mono') simp_all
  also have "\<dots> = sqrt (1 / 2 ^ 52)" by (rule powr_half_sqrt) simp
  also have "\<dots> = 1 / 2 ^ 26"
  proof -
    have "sqrt (4503599627370496 :: real) = 67108864"
      using real_sqrt_abs [of 67108864] by simp
    then show ?thesis by (simp add: real_sqrt_divide)
  qed
  also have "\<dots> < 1 / 1000" by simp
  finally show ?thesis by (simp add: threshold_def example_traits_def)
qed

lemma pslq_initial_3:
  "pslq_initial example_traits [91, 120, 288] 10 2 =
     Inr \<lparr>st_x = [91, 120, 288],
          st_H = assign (assign (assign (assign (assign (\<lambda>i j. 0)
               0 0 (24 / 25)) 1 0 (- 7 / 65)) 1 1 (12 / 13)) 2 0 (- 84 / 325)) 2 1 (- 5 / 13),
          st_y = (\<lambda>i. 0)(0 := 7 / 25, 1 := 24 / 65, 2 := 288 / 325),
          st_A = Identity, st_B = Identity,
          st_norm_bound = 0, st_last_norm_bound = 0, st_iteration = 0,
          st_out = [Cout (Expected_iterations (expected_iterations 3 10 2))]\<rparr>"
proof -
  have len: "length [91, 120, 288 :: real] = 3" by simp
  show ?thesis
    unfolding pslq_initial_def len
    by (simp add: gamma_two_ok tau_two_ok s_sq_3 build_H_3 build_y_3 Let_def
         example_traits_def squaredNorm_def yH_def sum_upto_three sum_upto_two assign_def
         upt3 upt2 not_less)
qed


lemma cpp_round_3:
  "cpp_round (- (35 / 312)) = 0" "cpp_round (- (5 / 12)) = 0" "cpp_round (- (7 / 26)) = 0"
  "cpp_round (- (12 / 5)) = - 2" "cpp_round (- (203 / 312)) = - 1"
  by (simp_all add: cpp_round_def)

lemma to_int64_zero: "to_int64 0 = 0"
  by (simp add: to_int64_def)

lemmas to_int64_3 = to_int64_zero to_int64_minus_two to_int64_vals

lemma start_3:
  "pslq_start example_traits [91, 120, 288] 10 2 =
     Inr (example_state3 [Cout (Expected_iterations (expected_iterations 3 10 2))])"
  apply (simp add: pslq_start_def pslq_initial_3 example_state3_def)
  apply (simp add: reduce_entry_def Let_def assign_def cpp_round_3 to_int64_3 upt2 upt3
     initial_reduction_def max_coeff_def fun_eq_iff flip: numeral_2_eq_2)
  done


lemma pivot_3: "select_pivot 2 3 (st_H (example_state3 out)) = 1"
  by (simp add: example_state3_def select_pivot_def upt2 Let_def assign_def flip: numeral_2_eq_2)

lemma update_3:
  "round_update 3 (Suc 0) (example_state3 out) = (example_state3_next out)\<lparr>st_iteration := 0\<rparr>"
  apply (simp add: example_state3_def example_state3_next_def round_update_def exchange_def
      remove_corner_def reduce_rows_def swap_rows_def swap_cols_def upt2 upt3 Let_def
      flip: numeral_2_eq_2)
  apply (simp add: reduce_entry_def Let_def assign_def cpp_round_3 to_int64_3 upt2 upt3
      ledger_reduce_def ledger_step_def Identity_def fun_eq_iff flip: numeral_2_eq_2)
  done

lemma solution_3:
  "solution_index example_traits 3 (st_y (example_state3_next out)) = None"
proof -
  have "\<not> \<bar>st_y (example_state3_next out) i\<bar> < threshold example_traits" if "i < 3" for i
  proof -
    from that have "i = 0 \<or> i = 1 \<or> i = 2" by auto
    then have "1 / 1000 \<le> \<bar>st_y (example_state3_next out) i\<bar>"
      by (auto simp: example_state3_next_def)
    with threshold_example show ?thesis by linarith
  qed
  then show ?thesis
    by (simp add: solution_index_None)
qed

lemma norm_bound_3:
  "update_norm_bound 10 2 ((example_state3_next out)\<lparr>st_iteration := 0\<rparr>) =
     example_state3_next
       (out @ [Cout (Norm_bound_progress (25 / 24) 10 0 (expected_iterations 3 10 2))])"
  by (simp add: update_norm_bound_def example_state3_next_def max_coeff_def upt2 Let_def
      assign_def flip: numeral_2_eq_2)

lemma round_3:
  "pslq_round example_traits 10 2 (example_state3 out) =
     Continue (example_state3_next
       (out @ [Cout (Norm_bound_progress (25 / 24) 10 0 (expected_iterations 3 10 2))]))"
proof -
  have x: "length (st_x (example_state3 out)) = 3" by (simp add: example_state3_def)
  have "solution_index example_traits 3 (st_y ((example_state3_next out)\<lparr>st_iteration := 0\<rparr>)) = None"
    using solution_3 [of out] by simp
  then show ?thesis
    unfolding pslq_round_def x Let_def pivot_3
    by (simp add: update_3 norm_bound_3)
qed

lemma example_traits_epsilon: "0 < epsilon example_traits"
  by (simp add: example_traits_def)

lemma loop_head_3:
  "loop_head example_traits [91, 120, 288] 10 2
     (example_state3 [Cout (Expected_iterations (expected_iterations 3 10 2))])"
  by (rule loop_head.initialised) (rule start_3)

lemma loop_head_3_next:
  "loop_head example_traits [91, 120, 288] 10 2
     (example_state3_next [Cout (Expected_iterations (expected_iterations 3 10 2)),
                           Cout (Norm_bound_progress (25 / 24) 10 0 (expected_iterations 3 10 2))])"
proof -
  have "st_norm_bound (example_state3 [Cout (Expected_iterations (expected_iterations 3 10 2))]) < 10"
    by (simp add: example_state3_def)
  from loop_head.next_round [OF loop_head_3 this round_3] show ?thesis by simp
qed

lemma pivot_3_next: "select_pivot 2 3 (st_H (example_state3_next out)) = 0"
  by (simp add: example_state3_next_def select_pivot_def upt2 Let_def assign_def flip: numeral_2_eq_2)


lemma loop_head_34:
  "loop_head example_traits [3, 4] 10 2
     (example_state [Cout (Expected_iterations (expected_iterations 2 10 2))])"
  by (rule loop_head.initialised) (simp add: start_34)

lemma pivot_34: "select_pivot 2 2 (st_H (example_state out)) = 0"
  by (simp add: example_state_def select_pivot_def upt2 Let_def assign_def flip: numeral_2_eq_2)

lemma update_34:
  "st_y (round_update 2 0 (example_state out)) 0 = 0"
  "st_B (round_update 2 0 (example_state out)) 0 0 = 4"
  "st_B (round_update 2 0 (example_state out)) (Suc 0) 0 = - 3"
  "st_out (round_update 2 0 (example_state out)) = out"
  by (simp_all add: example_state_def round_simps eval_simps flip: numeral_2_eq_2)

lemma s_sq_112: "s_sq [1, 1, 2] = [6, 5, 4]"
proof -
  have "replicate 3 (0::real) = [0, 0, 0]" by (simp add: numeral_3_eq_3)
  moreover have "rev [0..<2] = [Suc 0, 0]" by (simp add: upt2)
  ultimately show ?thesis
    by (simp add: s_sq_def Let_def numeral_2_eq_2)
qed

lemma inv_sqrt_six_large: "\<not> 1 / sqrt 6 < 1 / (4503599627370496 :: real)"
proof -
  have "sqrt 6 < 3" by (rule real_less_lsqrt) simp_all
  then have "1 / 3 < 1 / sqrt 6" by (simp add: field_simps)
  then show ?thesis by simp
qed

lemma pslq_initial_112:
  "pslq_initial example_traits [1, 1, 2] 1 2 =
      Inl (Returned (empty_result [1, 1, 2]
        [Cout (Expected_iterations (expected_iterations 3 1 2)),
         Cerr (Y_too_close 1 (1 / sqrt 6) (2 / sqrt 6))]))"
proof -
  have len: "length [1, 1, 2 :: real] = 3" by simp
  define H where "H = build_H [1, 1, 2] [6, 5, 4]"
  define y where "y = build_y [1, 1, 2] [6, 5, 4]"
  have Hv: "H 0 0 = sqrt (5 / 6)" "H 0 (Suc 0) = 0" "H (Suc 0) 0 = - (1 / sqrt 30)"
    "H (Suc 0) (Suc 0) = sqrt (4 / 5)" "H 2 0 = - (2 / sqrt 30)" "H 2 (Suc 0) = - (2 / sqrt 20)"
    by (simp_all add: H_def build_H_def Let_def upt2 assign_def flip: numeral_2_eq_2)
  have sq: "sqrt (5 / 6) * sqrt (5 / 6) = 5 / 6" "sqrt (4 / 5) * sqrt (4 / 5) = 4 / 5"
    "sqrt 30 * sqrt 30 = 30" "sqrt 20 * sqrt 20 = 20"
    by simp_all
  have "squaredNorm 3 H = sqrt (5 / 6) * sqrt (5 / 6) + 1 / (sqrt 30 * sqrt 30)
          + sqrt (4 / 5) * sqrt (4 / 5) + 4 / (sqrt 30 * sqrt 30) + 4 / (sqrt 20 * sqrt 20)"
    by (simp add: squaredNorm_def sum_upto_three sum_upto_two Hv)
  then have norm: "squaredNorm 3 H = 2" unfolding sq by simp
  have yv: "y 0 = 1 / sqrt 6" "y (Suc 0) = 1 / sqrt 6" "y 2 = 2 / sqrt 6"
    "y (Suc (Suc 0)) = 2 / sqrt 6"
    by (simp_all add: y_def build_y_def upt3 numeral_2_eq_2 [symmetric])
  have small: "find (\<lambda>i. \<bar>y i\<bar> < epsilon example_traits) [0..<3] = None"
    using inv_sqrt_six_large by (simp add: upt3 yv example_traits_def)
  have close: "find (\<lambda>i. \<bar>float_distance example_traits (y i) (y (i - 1))\<bar> \<le> 2) [1..<3] = Some 1"
    by (simp add: upt3 yv example_traits_def)
  show ?thesis
    unfolding pslq_initial_def len s_sq_112
    using norm small close
    by (simp add: gamma_two_ok tau_two_ok Let_def H_def [symmetric] y_def [symmetric] yv
          example_traits_def not_less)
qed

text \<open>
  On \<open>x = (1, 1)\<close> the closeness check fires at \<open>i = 1 = n - 1\<close>, and its diagnostic
  reads \<open>y[2]\<close>.
\<close>

lemma s_sq_11: "s_sq [1, 1] = [2, 1]"
proof -
  have "replicate 2 (0::real) = [0, 0]" by (simp add: numeral_2_eq_2)
  moreover have "rev [0..<1] = [0]" by simp
  ultimately show ?thesis
    by (simp add: s_sq_def Let_def numeral_2_eq_2)
qed

lemma inv_sqrt_two_large: "\<not> 1 / sqrt 2 < 1 / (4503599627370496 :: real)"
proof -
  have "sqrt 2 < 2" by (rule real_less_lsqrt) simp_all
  then have "1 / 2 < 1 / sqrt 2" by (simp add: field_simps)
  then show ?thesis by simp
qed

lemma pslq_initial_11:
  "pslq_initial example_traits [1, 1] 1 2 = Inl Index_out_of_range"
proof -
  have len: "length [1, 1 :: real] = 2" by simp
  define H where "H = build_H [1, 1] [2, 1]"
  define y where "y = build_y [1, 1] [2, 1]"
  have Hv: "H 0 0 = sqrt (1 / 2)" "H (Suc 0) 0 = - (1 / sqrt 2)"
    by (simp_all add: H_def build_H_def Let_def assign_def flip: numeral_2_eq_2)
  have "squaredNorm 2 H = sqrt (1 / 2) * sqrt (1 / 2) + 1 / (sqrt 2 * sqrt 2)"
    by (simp add: squaredNorm_def sum_upto_two Hv)
  then have norm: "squaredNorm 2 H = 1" by simp
  have yv: "y 0 = 1 / sqrt 2" "y (Suc 0) = 1 / sqrt 2"
    by (simp_all add: y_def build_y_def upt2 numeral_2_eq_2 [symmetric])
  have small: "find (\<lambda>i. \<bar>y i\<bar> < epsilon example_traits) [0..<2] = None"
    using inv_sqrt_two_large by (simp add: upt2 yv example_traits_def)
  have close: "find (\<lambda>i. \<bar>float_distance example_traits (y i) (y (i - 1))\<bar> \<le> 2) [1..<2] = Some 1"
    by (simp add: upt2 yv example_traits_def)
  show ?thesis
    unfolding pslq_initial_def len s_sq_11
    using norm small close
    by (simp add: gamma_two_ok tau_two_ok Let_def H_def [symmetric] y_def [symmetric] yv
          example_traits_def not_less)
qed

lemma run_11: "pslq example_traits [1, 1] 1 2 = Some Index_out_of_range"
  using pslq_rejected [OF pslq_initial_11] .

section \<open>The claims\<close>

text \<open>
  C1.  The ledger satisfies \<open>A * B = I\<close> (in the 64-bit arithmetic of its entries)
  in every state at the head of the loop, that is after the initialisation and after
  every completed round, and also after the exchange and reduction of a round that is
  under way, which is the state a returned relation is read from.
\<close>

theorem ledger_inverse_pair:
  assumes "loop_head T x max_acceptable_norm_bound gamma st"
  shows "inverse_pair (length x) (st_A st) (st_B st) \<and>
         (0 \<le> select_pivot gamma (length x) (st_H st) \<and>
          select_pivot gamma (length x) (st_H st) \<noteq> int (length x) - 1 \<longrightarrow>
          inverse_pair (length x)
            (st_A (round_update (length x) (nat (select_pivot gamma (length x) (st_H st))) st))
            (st_B (round_update (length x) (nat (select_pivot gamma (length x) (st_H st))) st)))"
proof -
  have inv: "inverse_pair (length x) (st_A st) (st_B st)"
    using assms by (rule loop_head_inverse_pair)
  have len: "2 \<le> length x"
    using loop_head_x [OF assms] by simp
  define m where "m = select_pivot gamma (length x) (st_H st)"
  have "nat m + 1 < length x" if "0 \<le> m" "m \<noteq> int (length x) - 1"
    using select_pivot_range [of gamma "length x" "st_H st"] that len by (simp add: m_def)
  then show ?thesis
    using inv round_update_inverse_pair [OF inv, of "nat m"] by (simp add: m_def)
qed

theorem ledger_inverse_pair_witness:
  "loop_head example_traits [3, 4] 10 2
     (example_state [Cout (Expected_iterations (expected_iterations 2 10 2))]) \<and>
   inverse_pair 2 (assign Identity 1 0 1) (assign Identity 1 0 (- 1))"
proof -
  have h: "loop_head example_traits [3, 4] 10 2
     (example_state [Cout (Expected_iterations (expected_iterations 2 10 2))])"
    by (rule loop_head.initialised) (simp add: start_34)
  from ledger_inverse_pair [OF h]
  have "inverse_pair (length [3, 4 :: real])
          (st_A (example_state [Cout (Expected_iterations (expected_iterations 2 10 2))]))
          (st_B (example_state [Cout (Expected_iterations (expected_iterations 2 10 2))]))"
    by (rule conjunct1)
  then show ?thesis
    using h by (simp add: example_state_def numeral_2_eq_2)
qed

text \<open>
  C10.  Whenever a call returns, on whichever path, the vector \<open>x\<close> it was given
  holds what it held before the call.
\<close>

theorem pslq_leaves_x:
  "pslq T x max_acceptable_norm_bound gamma = Some (Returned r) \<Longrightarrow> x_after r = x"
  by (auto simp: pslq_def pslq_start_Inl split: sum.splits
        dest: pslq_loop_x pslq_start_x pslq_initial_rejects)

theorem pslq_leaves_x_witness:
  "pslq example_traits [3, 4] 10 2 =
     Some (Returned \<lparr>relation = [(4, 3), (- 3, 4)],
           written = [Cout (Expected_iterations (expected_iterations 2 10 2)), Cout Endl],
           x_after = [3, 4]\<rparr>) \<and>
   x_after \<lparr>relation = [(4, 3), (- 3, 4)],
           written = [Cout (Expected_iterations (expected_iterations 2 10 2)), Cout Endl],
           x_after = [3, 4 :: real]\<rparr> = [3, 4]"
  using pslq_leaves_x [OF run_34] run_34 by simp

text \<open>
  C2.  For an input of length at least 2 the construction yields
  \<open>y\<^sub>i = x\<^sub>i / \<surd>s\<^sup>2\<^sub>0\<close> and the entries of \<open>H\<close> given by the three cases
  \<open>i < j\<close>, \<open>i = j\<close> and \<open>i > j\<close> over the suffix sums, the last row included;
  the state that the initialisation hands on holds exactly these.
\<close>

theorem initial_state_formulas:
  assumes "2 \<le> length x" and "i < length x"
  shows "build_y x (s_sq x) i = x ! i / sqrt (suffix_sum x 0) \<and>
         (\<forall>j < length x - 1.
            build_H x (s_sq x) i j =
              (if i < j then 0
               else if i = j then sqrt (suffix_sum x (i + 1) / suffix_sum x i)
               else - x ! i * x ! j / sqrt (suffix_sum x j * suffix_sum x (j + 1)))) \<and>
         (\<forall>st. pslq_initial T x max_acceptable_norm_bound gamma = Inr st \<longrightarrow>
            st_y st = build_y x (s_sq x) \<and> st_H st = build_H x (s_sq x))"
proof -
  have x: "x \<noteq> []" using assms by auto
  have s: "s_sq x ! k = suffix_sum x k" if "k < length x" for k
    using s_sq_nth [OF x that] .
  have "s_sq x ! 0 = suffix_sum x 0"
    using assms by (intro s) linarith
  then have "build_y x (s_sq x) i = x ! i / sqrt (suffix_sum x 0)"
    using assms by (simp add: build_y_nth)
  moreover have "build_H x (s_sq x) i j =
              (if i < j then 0
               else if i = j then sqrt (suffix_sum x (i + 1) / suffix_sum x i)
               else - x ! i * x ! j / sqrt (suffix_sum x j * suffix_sum x (j + 1)))"
    if "j < length x - 1" for j
    using that assms by (simp add: build_H_entry s)
  ultimately show ?thesis
    by (auto dest: pslq_initial_H_y)
qed

theorem initial_state_formulas_witness:
  "build_y [3, 4] (s_sq [3, 4]) 1 = 4 / 5 \<and> build_H [3, 4] (s_sq [3, 4]) 1 0 = - 3 / 5 \<and>
   build_H [3, 4] (s_sq [3, 4]) 0 0 = 4 / 5"
proof -
  have s: "suffix_sum [3, 4] 0 = 25" "suffix_sum [3, 4] (Suc 0) = 16"
    by (simp_all add: suffix_sum_def sum_upto_two numeral_2_eq_2)
  have r: "sqrt 25 = 5" "sqrt 400 = 20"
    using real_sqrt_abs [of 5] real_sqrt_abs [of 20] by simp_all
  from initial_state_formulas [of "[3, 4]" 1 example_traits 10 2]
       initial_state_formulas [of "[3, 4]" 0 example_traits 10 2]
  show ?thesis
    by (simp add: s r real_sqrt_divide)
qed

text \<open>
  C8 (amended).  An input that is not strictly increasing, or holds a zero or negative
  entry, or has fewer than two entries never reaches the iteration, provided
  \<open>float_distance\<close> puts a value within 2 of itself.  If it has a descent, a zero or
  negative entry or fewer than two entries, the call returns empty-handed with a
  diagnostic on \<open>std::cerr\<close>.  The sortedness check itself rejects only an input with
  a descent; equal neighbours pass it and are stopped later, and whatever is then
  returned is empty and comes with a diagnostic on \<open>std::cerr\<close>.
\<close>

theorem malformed_input_rejected:
  assumes fd: "\<forall>a. \<bar>float_distance T a a\<bar> \<le> 2"
    and bad: "\<not> sorted_wrt (<) x \<or> (\<exists>t \<in> set x. t \<le> 0) \<or> length x < 2"
  shows "(\<exists>res. pslq_initial T x max_acceptable_norm_bound gamma = Inl res \<and>
               pslq T x max_acceptable_norm_bound gamma = Some res \<and>
               (\<forall>r. res = Returned r \<longrightarrow>
                    relation r = [] \<and> (\<exists>msg. Cerr msg \<in> set (written r)))) \<and>
         (\<not> is_sorted x \<or> (\<exists>t \<in> set x. t \<le> 0) \<or> length x < 2 \<longrightarrow>
            (\<exists>r. pslq T x max_acceptable_norm_bound gamma = Some (Returned r) \<and>
                 (\<not> is_sorted x \<longrightarrow> written r = [Cerr Not_sorted])))"
proof -
  have first: "\<exists>res. pslq_initial T x max_acceptable_norm_bound gamma = Inl res"
  proof (cases "pslq_initial T x max_acceptable_norm_bound gamma")
    case (Inl res)
    then show ?thesis by simp
  next
    case (Inr st)
    note g = pslq_initial_guard [OF Inr]
    from g(3) have "\<forall>t \<in> set x. 0 < t" by (simp add: check_entries_None)
    with bad g(2) validated_strictly_increasing [OF Inr fd] show ?thesis
      by (auto simp: not_le [symmetric])
  qed
  then obtain res where res: "pslq_initial T x max_acceptable_norm_bound gamma = Inl res"
    by blast
  have ret: "relation r = [] \<and> (\<exists>msg. Cerr msg \<in> set (written r))" if "res = Returned r" for r
    using pslq_initial_rejects [of T x max_acceptable_norm_bound gamma r] res that by simp
  have early: "\<exists>r. pslq T x max_acceptable_norm_bound gamma = Some (Returned r) \<and>
                 (\<not> is_sorted x \<longrightarrow> written r = [Cerr Not_sorted])"
    if "\<not> is_sorted x \<or> (\<exists>t \<in> set x. t \<le> 0) \<or> length x < 2"
  proof -
    have "\<exists>r. pslq_initial T x max_acceptable_norm_bound gamma = Inl (Returned r) \<and>
                 (\<not> is_sorted x \<longrightarrow> written r = [Cerr Not_sorted])"
    proof (cases "is_sorted x")
      case False
      then show ?thesis by (simp add: pslq_initial_def empty_result_def)
    next
      case True
      with that have "(\<exists>t \<in> set x. t \<le> 0) \<or> length x < 2" by simp
      then have "length x < 2 \<or> (\<exists>msg. check_entries x = Some msg)"
        by (cases "check_entries x") (auto simp: check_entries_None not_less)
      then show ?thesis
        using True by (auto simp: pslq_initial_def)
    qed
    then show ?thesis by (auto dest: pslq_rejected)
  qed
  show ?thesis
    using res ret early pslq_rejected [OF res] by blast
qed

theorem malformed_input_rejected_witness:
  "(\<forall>a. \<bar>float_distance example_traits a a\<bar> \<le> 2) \<and> \<not> sorted_wrt (<) [4, 3 :: real] \<and>
   \<not> is_sorted [4, 3] \<and>
   (\<exists>r. pslq example_traits [4, 3] 1 2 = Some (Returned r) \<and> written r = [Cerr Not_sorted])"
proof -
  have bad: "\<not> sorted_wrt (<) [4, 3 :: real] \<or> (\<exists>t \<in> set [4, 3 :: real]. t \<le> 0) \<or>
             length [4, 3 :: real] < 2"
    by simp
  have "\<not> is_sorted [4, 3]" by simp
  with malformed_input_rejected [OF example_traits_distance bad, of 1 2]
  show ?thesis
    using example_traits_distance by auto
qed

text \<open>
  C8 as stated fails: \<open>(1, 1, 2)\<close> passes the sortedness check and is turned away by
  the closeness check on \<open>y\<close>.
\<close>

theorem equal_entries_counterexample:
  "is_sorted [1, 1, 2] \<and>
   pslq example_traits [1, 1, 2] 1 2 =
     Some (Returned \<lparr>relation = [],
           written = [Cout (Expected_iterations (expected_iterations 3 1 2)),
                      Cerr (Y_too_close 1 (1 / sqrt 6) (2 / sqrt 6))],
           x_after = [1, 1, 2]\<rparr>)"
  using pslq_rejected [OF pslq_initial_112] by (simp add: empty_result_def)

text \<open>
  C7 (amended).  The entry point returns a plain vector.  It is empty both when the
  input is turned away before the iteration and when the loop ends at the norm bound
  without a relation; the two differ only in what was written: the former ends with a
  diagnostic on \<open>std::cerr\<close>, the latter with a newline on \<open>std::cout\<close>.
\<close>

theorem empty_result_ambiguous:
  "(\<forall>r. pslq_initial T x max_acceptable_norm_bound gamma = Inl (Returned r) \<longrightarrow>
        pslq T x max_acceptable_norm_bound gamma = Some (Returned r) \<and> relation r = [] \<and>
        (\<exists>msg. last (written r) = Cerr msg)) \<and>
   (\<forall>st. loop_head T x max_acceptable_norm_bound gamma st \<and>
         \<not> st_norm_bound st < max_acceptable_norm_bound \<longrightarrow>
         pslq T x max_acceptable_norm_bound gamma =
           Some (Returned \<lparr>relation = [], written = st_out st @ [Cout Endl], x_after = x\<rparr>))"
  using pslq_initial_rejects pslq_rejected pslq_initial_last_cerr loop_head_exit by blast

theorem empty_result_ambiguous_witness:
  "pslq example_traits [4, 3] 1 2 =
     Some (Returned \<lparr>relation = [], written = [Cerr Not_sorted], x_after = [4, 3]\<rparr>) \<and>
   loop_head example_traits [3, 4] 1 2
     (example_state [Cout (Expected_iterations (expected_iterations 2 1 2))]) \<and>
   pslq example_traits [3, 4] 1 2 =
     Some (Returned \<lparr>relation = [],
           written = [Cout (Expected_iterations (expected_iterations 2 1 2)), Cout Endl],
           x_after = [3, 4]\<rparr>)"
proof -
  let ?st = "example_state [Cout (Expected_iterations (expected_iterations 2 1 2))]"
  have h: "loop_head example_traits [3, 4] 1 2 ?st"
    by (rule loop_head.initialised) (simp add: start_34)
  have nb: "\<not> st_norm_bound ?st < 1" by (simp add: example_state_def)
  from empty_result_ambiguous [of example_traits "[4, 3]" 1 2] pslq_initial_43 [of 1]
  have "pslq example_traits [4, 3] 1 2 = Some (Returned (empty_result [4, 3] [Cerr Not_sorted]))"
    by blast
  moreover
  from empty_result_ambiguous [of example_traits "[3, 4]" 1 2] h nb
  have "pslq example_traits [3, 4] 1 2 =
          Some (Returned \<lparr>relation = [], written = st_out ?st @ [Cout Endl], x_after = [3, 4]\<rparr>)"
    by blast
  ultimately show ?thesis
    using h by (simp add: empty_result_def example_state_def)
qed

text \<open>
  C7 as stated fails: the unsorted \<open>(4, 3)\<close> and the validated \<open>(3, 4)\<close> with bound 1
  return the same empty vector, and the diagnostic of the former is written to
  \<open>std::cerr\<close>.
\<close>

theorem empty_result_ambiguous_counterexample:
  "pslq_initial example_traits [4, 3] 1 2 = Inl (Returned (empty_result [4, 3] [Cerr Not_sorted])) \<and>
   pslq example_traits [4, 3] 1 2 =
     Some (Returned \<lparr>relation = [], written = [Cerr Not_sorted], x_after = [4, 3]\<rparr>) \<and>
   pslq example_traits [3, 4] 1 2 =
     Some (Returned \<lparr>relation = [],
           written = [Cout (Expected_iterations (expected_iterations 2 1 2)), Cout Endl],
           x_after = [3, 4]\<rparr>)"
  by (simp add: run_34_bound pslq_rejected [OF pslq_initial_43] pslq_initial_43 empty_result_def)







text \<open>
  C3.  In a round that runs, with \<open>y\<close> and \<open>B\<close> as the reduction leaves them: if no
  \<open>|y\<^sub>i|\<close> is below \<open>\<epsilon>\<^sup>1\<^sup>5\<^sup>/\<^sup>1\<^sup>6\<close> the round ends without a return; if \<open>i\<close> is the first
  index below it, the call returns the pairs \<open>(B\<^sub>j\<^sub>i, x\<^sub>j)\<close> with \<open>B\<^sub>j\<^sub>i \<noteq> 0\<close>, of which there
  is at least one, and the warning about the residual is written exactly when
  \<open>|\<rho>| > 16 \<sqdot> \<epsilon> \<sqdot> S\<close>, without changing what is returned.
\<close>

theorem relation_test:
  assumes lh: "loop_head T x max_acceptable_norm_bound gamma st"
    and fd: "\<forall>a. \<bar>float_distance T a a\<bar> \<le> 2" and eps: "0 < epsilon T"
    and run: "st_norm_bound st < max_acceptable_norm_bound"
  shows "let n = length x;
             st' = round_update n (nat (select_pivot gamma n (st_H st))) st;
             y = st_y st'; B = st_B st'
         in ((\<forall>i < n. \<not> \<bar>y i\<bar> < epsilon T powr (15 / 16)) \<longrightarrow>
               pslq_round T max_acceptable_norm_bound gamma st
                 = Continue (update_norm_bound max_acceptable_norm_bound gamma st')) \<and>
            (\<forall>i < n. \<bar>y i\<bar> < epsilon T powr (15 / 16) \<and>
                      (\<forall>k < i. \<not> \<bar>y k\<bar> < epsilon T powr (15 / 16)) \<longrightarrow>
               (\<exists>j < n. B j i \<noteq> 0) \<and>
               pslq T x max_acceptable_norm_bound gamma =
                 Some (Returned \<lparr>relation = map (\<lambda>j. (B j i, x ! j)) (filter (\<lambda>j. B j i \<noteq> 0) [0..<n]),
                       written = st_out st
                         @ (if \<bar>\<Sum>j = 0..<n. of_int64 (B j i) * x ! j\<bar>
                                > 16 * epsilon T * (\<Sum>j = 0..<n. \<bar>of_int64 (B j i) * x ! j\<bar>)
                            then [Cerr (Large_residual \<bar>\<Sum>j = 0..<n. of_int64 (B j i) * x ! j\<bar>
                                    (16 * epsilon T * (\<Sum>j = 0..<n. \<bar>of_int64 (B j i) * x ! j\<bar>)))]
                            else [])
                         @ [Cout Endl],
                       x_after = x\<rparr>))"
proof -
  define n where "n = length x"
  define m where "m = select_pivot gamma n (st_H st)"
  define st' where "st' = round_update n (nat m) st"
  have x: "st_x st = x" using loop_head_x [OF lh] by simp
  have p: "0 \<le> m" "nat m < n - 1"
    using loop_head_pivot [OF lh fd eps] unfolding m_def n_def by blast+
  then have m: "0 \<le> m" "m \<noteq> int n - 1" "nat m + 1 < n" by linarith+
  have round: "pslq_round T max_acceptable_norm_bound gamma st =
      (case solution_index T n (st_y st') of
         Some i \<Rightarrow> Return (extract_relation T st' i)
       | None \<Rightarrow> Continue (update_norm_bound max_acceptable_norm_bound gamma st'))"
    unfolding st'_def
    using m by (simp add: pslq_round_def Let_def x n_def [symmetric] m_def [symmetric])
  have thr: "threshold T = epsilon T powr (15 / 16)" by (simp add: threshold_def)
  have none: "pslq_round T max_acceptable_norm_bound gamma st
                 = Continue (update_norm_bound max_acceptable_norm_bound gamma st')"
    if "\<forall>i < n. \<not> \<bar>st_y st' i\<bar> < epsilon T powr (15 / 16)"
  proof -
    have "solution_index T n (st_y st') = None"
      using that by (simp add: solution_index_None thr)
    then show ?thesis by (simp add: round)
  qed
  have some: "(\<exists>j < n. st_B st' j i \<noteq> 0) \<and>
      pslq T x max_acceptable_norm_bound gamma = Some (Returned (extract_relation T st' i))"
    if i: "i < n" "\<bar>st_y st' i\<bar> < epsilon T powr (15 / 16)"
       "\<forall>k < i. \<not> \<bar>st_y st' k\<bar> < epsilon T powr (15 / 16)" for i
  proof -
    have "solution_index T n (st_y st') = Some i"
      using i by (simp add: solution_index_Some thr)
    then have "pslq_round T max_acceptable_norm_bound gamma st = Return (extract_relation T st' i)"
      by (simp add: round)
    then have "pslq T x max_acceptable_norm_bound gamma = Some (Returned (extract_relation T st' i))"
      using run by (simp add: loop_head_pslq [OF lh] pslq_loop.simps [of T _ gamma st])
    moreover have "inverse_pair n (st_A st') (st_B st')"
      unfolding st'_def using loop_head_inverse_pair [OF lh] m(3)
      by (intro round_update_inverse_pair) (simp_all add: n_def)
    ultimately show ?thesis using inverse_pair_column i(1) by blast
  qed
  have x': "st_x st' = x" "st_out st' = st_out st"
    by (simp_all add: st'_def round_update_frame x)
  show ?thesis
    unfolding Let_def n_def [symmetric] m_def [symmetric] st'_def [symmetric]
    using none some by (simp add: extract_relation_eq x' n_def [symmetric])
qed

theorem relation_test_witness:
  "loop_head example_traits [3, 4] 10 2
     (example_state [Cout (Expected_iterations (expected_iterations 2 10 2))]) \<and>
   st_norm_bound (example_state [Cout (Expected_iterations (expected_iterations 2 10 2))]) < 10 \<and>
   \<bar>st_y (round_update 2 0 (example_state [Cout (Expected_iterations (expected_iterations 2 10 2))])) 0\<bar>
      < epsilon example_traits powr (15 / 16) \<and>
   pslq example_traits [3, 4] 10 2 =
     Some (Returned \<lparr>relation = [(4, 3), (- 3, 4)],
           written = [Cout (Expected_iterations (expected_iterations 2 10 2)), Cout Endl],
           x_after = [3, 4]\<rparr>) \<and>
   loop_head example_traits [91, 120, 288] 10 2
     (example_state3 [Cout (Expected_iterations (expected_iterations 3 10 2))]) \<and>
   pslq_round example_traits 10 2
     (example_state3 [Cout (Expected_iterations (expected_iterations 3 10 2))]) =
     Continue (update_norm_bound 10 2
       (round_update 3 1 (example_state3 [Cout (Expected_iterations (expected_iterations 3 10 2))])))"
proof -
  let ?s2 = "example_state [Cout (Expected_iterations (expected_iterations 2 10 2))]"
  let ?s3 = "example_state3 [Cout (Expected_iterations (expected_iterations 3 10 2))]"
  have thr: "0 < epsilon example_traits powr (15 / 16)"
    by (simp add: example_traits_def)
  have run2: "st_norm_bound ?s2 < 10" by (simp add: example_state_def)
  have run3: "st_norm_bound ?s3 < 10" by (simp add: example_state3_def)
  have len: "length [3, 4 :: real] = 2" "length [91, 120, 288 :: real] = 3" by simp_all
  have m2: "nat (select_pivot 2 2 (st_H ?s2)) = 0"
    unfolding pivot_34 by simp
  have m3: "nat (select_pivot 2 3 (st_H ?s3)) = 1"
    unfolding pivot_3 by simp
  note r2 = relation_test [OF loop_head_34 example_traits_distance example_traits_epsilon run2,
      unfolded Let_def len m2]
  note r3 = relation_test [OF loop_head_3 example_traits_distance example_traits_epsilon run3,
      unfolded Let_def len m3]
  have small: "\<bar>st_y (round_update 2 0 ?s2) 0\<bar> < epsilon example_traits powr (15 / 16)"
    using thr by (simp add: update_34)
  have "pslq example_traits [3, 4] 10 2 =
     Some (Returned \<lparr>relation = [(4, 3), (- 3, 4)],
           written = [Cout (Expected_iterations (expected_iterations 2 10 2)), Cout Endl],
           x_after = [3, 4]\<rparr>)"
  proof -
    from r2 small have "pslq example_traits [3, 4] 10 2 =
        Some (Returned \<lparr>relation = map (\<lambda>j. (st_B (round_update 2 0 ?s2) j 0, [3, 4] ! j))
                  (filter (\<lambda>j. st_B (round_update 2 0 ?s2) j 0 \<noteq> 0) [0..<2]),
          written = st_out ?s2
            @ (if \<bar>\<Sum>j = 0..<2. of_int64 (st_B (round_update 2 0 ?s2) j 0) * [3, 4] ! j\<bar>
                  > 16 * epsilon example_traits
                      * (\<Sum>j = 0..<2. \<bar>of_int64 (st_B (round_update 2 0 ?s2) j 0) * [3, 4] ! j\<bar>)
               then [Cerr (Large_residual
                      \<bar>\<Sum>j = 0..<2. of_int64 (st_B (round_update 2 0 ?s2) j 0) * [3, 4] ! j\<bar>
                      (16 * epsilon example_traits
                         * (\<Sum>j = 0..<2. \<bar>of_int64 (st_B (round_update 2 0 ?s2) j 0) * [3, 4] ! j\<bar>)))]
               else [])
            @ [Cout Endl],
          x_after = [3, 4]\<rparr>)"
      by simp
    moreover have "st_out ?s2 = [Cout (Expected_iterations (expected_iterations 2 10 2))]"
      by (simp add: example_state_def)
    moreover have "epsilon example_traits = 1 / 2 ^ 52"
      by (simp add: example_traits_def)
    ultimately show ?thesis
      by (simp add: update_34 upt2 sum_upto_two of_int64_def)
  qed
  moreover have "pslq_round example_traits 10 2 ?s3 =
     Continue (update_norm_bound 10 2 (round_update 3 1 ?s3))"
  proof -
    have "\<forall>i < 3. \<not> \<bar>st_y (round_update 3 1 ?s3) i\<bar> < epsilon example_traits powr (15 / 16)"
      using solution_3 [of "[Cout (Expected_iterations (expected_iterations 3 10 2))]"]
      by (simp add: solution_index_None update_3 threshold_def)
    with r3 show ?thesis by simp
  qed
  ultimately show ?thesis
    using loop_head_34 loop_head_3 run2 small by simp
qed

text \<open>
  C5.  In every state at the head of the loop the pivot \<open>m\<close> lies in
  \<open>{0, \<dots>, n - 2}\<close>, maximises \<open>gamma\<^sup>i\<^sup>+\<^sup>1 \<sqdot> |H\<^sub>i\<^sub>i|\<close>, and is the least index that
  does; \<open>m = n - 1\<close> does not occur.  (The traits are those of a floating-point type:
  a value is within 2 of itself, and epsilon is positive.)
\<close>

theorem pivot_selection:
  assumes "loop_head T x max_acceptable_norm_bound gamma st"
    and "\<forall>a. \<bar>float_distance T a a\<bar> \<le> 2" and "0 < epsilon T"
  shows "0 \<le> select_pivot gamma (length x) (st_H st) \<and>
     select_pivot gamma (length x) (st_H st) \<le> int (length x) - 2 \<and>
     select_pivot gamma (length x) (st_H st) \<noteq> int (length x) - 1 \<and>
     (\<forall>i < length x - 1.
        gamma ^ (i + 1) * \<bar>st_H st i i\<bar>
          \<le> gamma ^ (nat (select_pivot gamma (length x) (st_H st)) + 1)
              * \<bar>st_H st (nat (select_pivot gamma (length x) (st_H st)))
                          (nat (select_pivot gamma (length x) (st_H st)))\<bar>) \<and>
     (\<forall>i < nat (select_pivot gamma (length x) (st_H st)).
        gamma ^ (i + 1) * \<bar>st_H st i i\<bar>
          < gamma ^ (nat (select_pivot gamma (length x) (st_H st)) + 1)
              * \<bar>st_H st (nat (select_pivot gamma (length x) (st_H st)))
                          (nat (select_pivot gamma (length x) (st_H st)))\<bar>)"
proof -
  define m where "m = select_pivot gamma (length x) (st_H st)"
  note p = loop_head_pivot [OF assms, folded m_def]
  then have "0 \<le> m" "nat m < length x - 1" by simp_all
  then have "m \<le> int (length x) - 2" "m \<noteq> int (length x) - 1" by linarith+
  with p show ?thesis unfolding m_def by blast
qed

theorem pivot_selection_witness:
  "loop_head example_traits [91, 120, 288] 10 2
     (example_state3_next [Cout (Expected_iterations (expected_iterations 3 10 2)),
                           Cout (Norm_bound_progress (25 / 24) 10 0 (expected_iterations 3 10 2))]) \<and>
   (\<forall>a. \<bar>float_distance example_traits a a\<bar> \<le> 2) \<and> 0 < epsilon example_traits \<and>
   select_pivot 2 3 (st_H (example_state3_next [])) = 0 \<and>
   2 ^ (1 + 1) * \<bar>st_H (example_state3_next []) 1 1\<bar>
     \<le> 2 * \<bar>st_H (example_state3_next []) 0 0\<bar>"
proof -
  let ?st = "example_state3_next [Cout (Expected_iterations (expected_iterations 3 10 2)),
                           Cout (Norm_bound_progress (25 / 24) 10 0 (expected_iterations 3 10 2))]"
  have H: "st_H ?st = st_H (example_state3_next [])"
    by (simp add: example_state3_next_def)
  have len: "length [91, 120, 288 :: real] = 3" by simp
  from pivot_selection [OF loop_head_3_next example_traits_distance example_traits_epsilon]
  have "\<forall>i < 3 - 1. 2 ^ (i + 1) * \<bar>st_H (example_state3_next []) i i\<bar>
                \<le> 2 ^ (nat 0 + 1) * \<bar>st_H (example_state3_next []) (nat 0) (nat 0)\<bar>"
    unfolding len H pivot_3_next by blast
  then have "2 ^ (1 + 1) * \<bar>st_H (example_state3_next []) 1 1\<bar>
                \<le> 2 ^ (nat 0 + 1) * \<bar>st_H (example_state3_next []) (nat 0) (nat 0)\<bar>"
    by (rule allE [where x = 1]) simp
  then show ?thesis
    using loop_head_3_next example_traits_distance example_traits_epsilon pivot_3_next [of "[]"]
    by simp
qed



end
